theory Spec2Isabelle
  imports Complex_Main "HOL-Library.Log_Nat" "HOL-Library.Multiset" "HOL-Library.Word"
begin

section \<open>JavaScript numbers\<close>

text \<open>
  Every number of \<^verbatim>\<open>extractColors.js\<close> is an IEEE 754 binary64 value. A finite double is
  a rational, so a number is modelled as a \<^typ>\<open>rat\<close> and every arithmetic operator of
  the source as the exact operation followed by \<open>fl\<close>, rounding to the nearest double
  (53-bit significand, ties to the even significand). The exponent range is left unbounded:
  the quantities of this program stay far from overflow and underflow. Quantities that are
  integers below \<open>2^53\<close> in the source (channel values, lengths, and the channel sums of
  an array, whose length is below \<open>2^32\<close>) are exact in binary64 and are modelled as
  \<^typ>\<open>int\<close> or \<^typ>\<open>nat\<close>.
\<close>

definition ilog2 :: "rat \<Rightarrow> int" where
  \<comment> \<open>the binary exponent of a positive rational: the \<open>e\<close> with \<open>2^e \<le> x < 2^(e+1)\<close>\<close>
  "ilog2 x = (let (p, q) = quotient_of x; k = bitlen p - bitlen q
              in if 2 powi k \<le> x then k else k - 1)"

definition rne :: "rat \<Rightarrow> int" where
  \<comment> \<open>round to the nearest integer, ties to even\<close>
  "rne x = (let f = \<lfloor>x\<rfloor>; d = x - of_int f
            in if d < 1 / 2 then f
               else if 1 / 2 < d then f + 1
               else if even f then f else f + 1)"

definition flp :: "rat \<Rightarrow> rat" where
  \<comment> \<open>rounding of a positive rational to 53 significant bits\<close>
  "flp x = (let u = 2 powi (ilog2 x - 52) in of_int (rne (x / u)) * u)"

definition fl :: "rat \<Rightarrow> rat" where
  "fl x = (if x = 0 then 0 else if x < 0 then - flp (- x) else flp x)"

definition fadd :: "rat \<Rightarrow> rat \<Rightarrow> rat" where
  "fadd x y = fl (x + y)"

definition fsub :: "rat \<Rightarrow> rat \<Rightarrow> rat" where
  "fsub x y = fl (x - y)"

definition fmul :: "rat \<Rightarrow> rat \<Rightarrow> rat" where
  "fmul x y = fl (x * y)"

definition fdiv :: "rat \<Rightarrow> rat \<Rightarrow> rat" where
  \<comment> \<open>the source never divides by zero on the inputs considered below\<close>
  "fdiv x y = fl (x / y)"

definition Math_round :: "rat \<Rightarrow> int" where
  \<comment> \<open>\<^verbatim>\<open>Math.round\<close>: the nearest integer, a tie going to the larger one\<close>
  "Math_round x = \<lfloor>x + 1 / 2\<rfloor>"

text \<open>
  The unit roundoff of binary64: rounding a number to the nearest double changes it by at most
  this fraction of its magnitude.
\<close>

definition roundoff :: rat where
  "roundoff = 1 / 2 ^ 53"


section \<open>Strings\<close>

definition hexDigit :: "nat \<Rightarrow> char" where
  \<comment> \<open>the digit of a value below 16; only such values are passed\<close>
  "hexDigit d = ''0123456789abcdef'' ! d"

fun hexDigits :: "nat \<Rightarrow> string" where
  "hexDigits n = (if n < 16 then [hexDigit n] else hexDigits (n div 16) @ [hexDigit (n mod 16)])"

declare hexDigits.simps [simp del]

definition toString16 :: "int \<Rightarrow> string" where
  \<comment> \<open>\<^verbatim>\<open>x.toString(16)\<close> for an integer \<open>x\<close>\<close>
  "toString16 x = (if x < 0 then CHR ''-'' # hexDigits (nat (- x)) else hexDigits (nat x))"

fun decDigits :: "nat \<Rightarrow> string" where
  "decDigits n = (if n < 10 then [hexDigit n] else decDigits (n div 10) @ [hexDigit (n mod 10)])"

declare decDigits.simps [simp del]

definition toString10 :: "int \<Rightarrow> string" where
  \<comment> \<open>the decimal text a template literal produces for an integer\<close>
  "toString10 x = (if x < 0 then CHR ''-'' # decDigits (nat (- x)) else decDigits (nat x))"

definition padStart :: "string \<Rightarrow> nat \<Rightarrow> char \<Rightarrow> string" where
  "padStart s n c = replicate (n - length s) c @ s"


section \<open>Colour conversions\<close>

definition rgbToHex :: "int \<Rightarrow> int \<Rightarrow> int \<Rightarrow> string" where
  "rgbToHex r g b = ''#'' @ concat (map (\<lambda>x. padStart (toString16 x) 2 CHR ''0'') [r, g, b])"

record hsl =
  hsl_h :: int
  hsl_s :: int
  hsl_l :: int

definition rgbToHsl :: "int \<Rightarrow> int \<Rightarrow> int \<Rightarrow> hsl" where
  "rgbToHsl r0 g0 b0 =
     (let r = fdiv (of_int r0) 255;
          g = fdiv (of_int g0) 255;
          b = fdiv (of_int b0) 255;
          mx = max r (max g b);
          mn = min r (min g b);
          l = fdiv (fadd mx mn) 2;
          (h, s) =
            (if mx = mn then (0, 0)
             else
               let d = fsub mx mn;
                   s = (if l > 1 / 2 then fdiv d (fsub (fsub 2 mx) mn) else fdiv d (fadd mx mn));
                   h = (if mx = r then fdiv (fadd (fdiv (fsub g b) d) (if g < b then 6 else 0)) 6
                        else if mx = g then fdiv (fadd (fdiv (fsub b r) d) 2) 6
                        else fdiv (fadd (fdiv (fsub r g) d) 4) 6)
               in (h, s))
      in \<lparr>hsl_h = Math_round (fmul h 360),
          hsl_s = Math_round (fmul s 100),
          hsl_l = Math_round (fmul l 100)\<rparr>)"

definition luminance :: "int \<Rightarrow> int \<Rightarrow> int \<Rightarrow> rat" where
  \<comment> \<open>the constant \<^verbatim>\<open>luminance\<close> of \<^verbatim>\<open>getContrastColor\<close>; a decimal literal is the nearest double\<close>
  "luminance r g b =
     fdiv (fadd (fadd (fmul (fl (299 / 1000)) (of_int r)) (fmul (fl (587 / 1000)) (of_int g)))
                (fmul (fl (114 / 1000)) (of_int b)))
          255"

definition getContrastColor :: "int \<Rightarrow> int \<Rightarrow> int \<Rightarrow> string" where
  "getContrastColor r g b = (if luminance r g b > 1 / 2 then ''#000000'' else ''#ffffff'')"

definition getSaturation :: "int \<Rightarrow> int \<Rightarrow> int \<Rightarrow> rat" where
  "getSaturation r g b =
     (let mx = max r (max g b);
          mn = min r (min g b)
      in if mx = 0 then 0 else fdiv (of_int (mx - mn)) (of_int mx))"


section \<open>Pixel sampling\<close>

text \<open>
  \<^verbatim>\<open>imageData.data\<close> is a \<^verbatim>\<open>Uint8ClampedArray\<close> holding four bytes per pixel, so its length
  is a multiple of four; it is modelled as the list of its four-byte groups. A sampled pixel
  is the array \<^verbatim>\<open>[r, g, b, saturation]\<close>.
\<close>

type_synonym byte = "8 word"

type_synonym rgba = "byte \<times> byte \<times> byte \<times> byte"

type_synonym pixel = "int \<times> int \<times> int \<times> rat"

fun px :: "pixel \<Rightarrow> nat \<Rightarrow> int" where
  \<comment> \<open>\<^verbatim>\<open>pixel[channel]\<close>; the source only reads channels 0, 1 and 2 this way\<close>
  "px (r, g, b, s) channel = (if channel = 0 then r else if channel = 1 then g else b)"

fun px_sat :: "pixel \<Rightarrow> rat" where
  \<comment> \<open>\<^verbatim>\<open>pixel[3]\<close>\<close>
  "px_sat (r, g, b, s) = s"

fun getPixels :: "rgba list \<Rightarrow> pixel list" where
  "getPixels [] = []"
| "getPixels ((r, g, b, a) # rest) =
     (if a < 128 then getPixels rest
      else
        let brightness = fdiv (of_int (uint r + uint g + uint b)) 3
        in if brightness < 5 \<or> brightness > 250 then getPixels rest
           else (uint r, uint g, uint b, getSaturation (uint r) (uint g) (uint b)) # getPixels rest)"


section \<open>Sorting\<close>

text \<open>
  \<^verbatim>\<open>Array.prototype.sort\<close> with a comparator is stable, and \<open>a\<close> precedes \<open>b\<close> when the
  comparator is negative on \<open>(a, b)\<close>. For a consistent comparator that order is unique; the
  model computes it by insertion from the right.
\<close>

fun insert_by :: "('a \<Rightarrow> 'a \<Rightarrow> 'n::{zero,ord}) \<Rightarrow> 'a \<Rightarrow> 'a list \<Rightarrow> 'a list" where
  "insert_by cmp x [] = [x]"
| "insert_by cmp x (y # ys) = (if cmp x y \<le> 0 then x # y # ys else y # insert_by cmp x ys)"

definition array_sort :: "('a \<Rightarrow> 'a \<Rightarrow> 'n::{zero,ord}) \<Rightarrow> 'a list \<Rightarrow> 'a list" where
  "array_sort cmp xs = foldr (insert_by cmp) xs []"


section \<open>Median cut\<close>

record bucket =
  bucket_r :: int
  bucket_g :: int
  bucket_b :: int
  saturation :: rat
  count :: nat

definition getColorRange :: "pixel list \<Rightarrow> nat \<Rightarrow> int" where
  "getColorRange pixels channel =
     (let mn = foldl (\<lambda>mn pixel. if px pixel channel < mn then px pixel channel else mn) 255 pixels;
          mx = foldl (\<lambda>mx pixel. if px pixel channel > mx then px pixel channel else mx) 0 pixels
      in mx - mn)"

definition averageBucket :: "pixel list \<Rightarrow> bucket" where
  \<comment> \<open>the base case of \<^verbatim>\<open>medianCut\<close> on a non-empty list (lines 88 to 108)\<close>
  "averageBucket pixels =
     (let r = foldl (\<lambda>r pixel. r + px pixel 0) 0 pixels;
          g = foldl (\<lambda>g pixel. g + px pixel 1) 0 pixels;
          b = foldl (\<lambda>b pixel. b + px pixel 2) 0 pixels;
          sat = foldl (\<lambda>sat pixel. fadd sat (if px_sat pixel = 0 then 0 else px_sat pixel)) 0 pixels;
          n = length pixels
      in \<lparr>bucket_r = Math_round (fdiv (of_int r) (of_nat n)),
          bucket_g = Math_round (fdiv (of_int g) (of_nat n)),
          bucket_b = Math_round (fdiv (of_int b) (of_nat n)),
          saturation = fdiv sat (of_nat n),
          count = n\<rparr>)"

definition splitChannel :: "pixel list \<Rightarrow> nat" where
  \<comment> \<open>the variable \<^verbatim>\<open>channel\<close> of \<^verbatim>\<open>medianCut\<close> (lines 112 to 123)\<close>
  "splitChannel pixels =
     (let rRange = getColorRange pixels 0;
          gRange = getColorRange pixels 1;
          bRange = getColorRange pixels 2
      in if rRange \<ge> gRange \<and> rRange \<ge> bRange then 0
         else if gRange \<ge> rRange \<and> gRange \<ge> bRange then 1
         else 2)"

text \<open>
  The depth is any integer; the recursion only stops at depth 0 or on an empty list, so a call
  with a negative depth and a non-empty list does not return, which is the value \<open>None\<close>
  (lemma \<open>medianCut_negative_depth\<close> below).
\<close>

partial_function (option) medianCut :: "pixel list \<Rightarrow> int \<Rightarrow> bucket list option" where
  "medianCut pixels depth =
     (if depth = 0 \<or> length pixels = 0 then
        (if length pixels = 0 then Some [] else Some [averageBucket pixels])
      else
        (let channel = splitChannel pixels;
             sorted = array_sort (\<lambda>a b. px a channel - px b channel) pixels;
             mid = length sorted div 2
         in Option.bind (medianCut (take mid sorted) (depth - 1)) (\<lambda>lower.
            Option.bind (medianCut (drop mid sorted) (depth - 1)) (\<lambda>upper.
              Some (lower @ upper)))))"

declare medianCut.simps [code]

text \<open>The array after \<^verbatim>\<open>pixels.sort(...)\<close> and its two slices, named for the statements below.\<close>

definition sortedPixels :: "pixel list \<Rightarrow> pixel list" where
  "sortedPixels pixels =
     array_sort (\<lambda>a b. px a (splitChannel pixels) - px b (splitChannel pixels)) pixels"

definition lowerHalf :: "pixel list \<Rightarrow> pixel list" where
  "lowerHalf pixels = take (length (sortedPixels pixels) div 2) (sortedPixels pixels)"

definition upperHalf :: "pixel list \<Rightarrow> pixel list" where
  "upperHalf pixels = drop (length (sortedPixels pixels) div 2) (sortedPixels pixels)"


section \<open>Ranking and the pipeline\<close>

definition score :: "bucket \<Rightarrow> rat" where
  \<comment> \<open>\<^verbatim>\<open>scoreA\<close> and \<^verbatim>\<open>scoreB\<close> of the ranking comparator\<close>
  "score a = fmul (of_nat (count a)) (fadd 1 (fmul (saturation a) 2))"

definition rankColors :: "bucket list \<Rightarrow> nat \<Rightarrow> bucket list" where
  \<comment> \<open>lines 181 to 190: \<^verbatim>\<open>colors.sort(...)\<close>, then \<^verbatim>\<open>colors.slice(0, colorCount)\<close>\<close>
  "rankColors colors colorCount =
     take colorCount (array_sort (\<lambda>a b. fsub (score b) (score a)) colors)"

record entry =
  entry_r :: int
  entry_g :: int
  entry_b :: int
  hex :: string
  hsl :: hsl
  contrast :: string
  rgb :: string
  hslString :: string

definition paletteEntry :: "bucket \<Rightarrow> entry" where
  \<comment> \<open>the function mapped over \<^verbatim>\<open>colors\<close> (lines 193 to 208)\<close>
  "paletteEntry color =
     (let hex = rgbToHex (bucket_r color) (bucket_g color) (bucket_b color);
          hsl = rgbToHsl (bucket_r color) (bucket_g color) (bucket_b color);
          contrast = getContrastColor (bucket_r color) (bucket_g color) (bucket_b color)
      in \<lparr>entry_r = bucket_r color,
          entry_g = bucket_g color,
          entry_b = bucket_b color,
          hex = hex,
          hsl = hsl,
          contrast = contrast,
          rgb = ''rgb('' @ toString10 (bucket_r color) @ '', '' @ toString10 (bucket_g color)
                @ '', '' @ toString10 (bucket_b color) @ '')'',
          hslString = ''hsl('' @ toString10 (hsl_h hsl) @ '', '' @ toString10 (hsl_s hsl)
                @ ''%, '' @ toString10 (hsl_l hsl) @ ''%)''\<rparr>)"

datatype error = NoValidPixels | FailedToLoad

fun message :: "error \<Rightarrow> string" where
  "message NoValidPixels = ''No valid pixels found in image''"
| "message FailedToLoad = ''Failed to load image''"

text \<open>
  Lines 147 to 161 compute the canvas size from the size of the loaded image: the longer edge
  is cut to 250 and the other edge is scaled and rounded.
\<close>

definition scaledSize :: "nat \<Rightarrow> nat \<Rightarrow> nat \<times> nat" where
  "scaledSize imgWidth imgHeight =
     (let maxSize = 250;
          width = imgWidth;
          height = imgHeight
      in if width > height then
           (if width > maxSize then
              (maxSize, nat (Math_round (fdiv (of_nat (height * maxSize)) (of_nat width))))
            else (width, height))
         else
           (if height > maxSize then
              (nat (Math_round (fdiv (of_nat (width * maxSize)) (of_nat height))), maxSize)
            else (width, height)))"

text \<open>
  Loading the image, drawing it and reading it back are the browser's work. The model takes
  their outcome: the load failed (\<^verbatim>\<open>img.onerror\<close>), or the image loaded with a width and a
  height, and the canvas returns the pixel data for the size it is given. \<^verbatim>\<open>getImageData\<close>
  throws when the width or the height is 0; this happens inside the load handler, where
  nothing rejects the promise.

  The promise of \<^verbatim>\<open>extractColors\<close> is rejected (\<open>Inl\<close>), resolved (\<open>Inr\<close>), or never
  settled (\<open>None\<close>). The requested count is a natural number; the argument may be absent.
  For a count of 0 the depth is \<^verbatim>\<open>-Infinity\<close>, with which \<^verbatim>\<open>medianCut\<close> does not return on a
  non-empty list. \<^verbatim>\<open>Math.ceil(Math.log2(colorCount))\<close> is taken as the exact \<open>\<lceil>log\<^sub>2 colorCount\<rceil>\<close>.
\<close>

datatype image = LoadError | Loaded nat nat "nat \<Rightarrow> nat \<Rightarrow> rgba list"

definition extractColors :: "image \<Rightarrow> nat option \<Rightarrow> (error + entry list) option" where
  "extractColors img colorCountArg =
     (let colorCount = (case colorCountArg of None \<Rightarrow> 6 | Some c \<Rightarrow> c)
      in case img of
           LoadError \<Rightarrow> Some (Inl FailedToLoad)
         | Loaded imgWidth imgHeight canvas \<Rightarrow>
             let (width, height) = scaledSize imgWidth imgHeight
             in if width = 0 \<or> height = 0 then None
                else
                  let pixels = getPixels (canvas width height)
                  in if length pixels = 0 then Some (Inl NoValidPixels)
                     else if colorCount = 0 then None
                     else
                       let depth = int (ceillog2 colorCount) + 2
                       in Option.bind (medianCut pixels depth) (\<lambda>colors.
                            Some (Inr (map paletteEntry (rankColors colors colorCount)))))"


section \<open>Statement vocabulary\<close>

text \<open>A pixel of the data model: the three channels are integers from 0 to 255.\<close>

definition valid_pixel :: "pixel \<Rightarrow> bool" where
  "valid_pixel p \<longleftrightarrow>
     0 \<le> px p 0 \<and> px p 0 \<le> 255 \<and> 0 \<le> px p 1 \<and> px p 1 \<le> 255 \<and> 0 \<le> px p 2 \<and> px p 2 \<le> 255"


text \<open>
  The recursive step in the words of the specification: the range of a channel is the largest
  minus the smallest value of the channel over the set, and the channel is red if its range
  is at least the two others, else green if its range is at least the two others, else blue.
\<close>

definition spec_range :: "pixel list \<Rightarrow> nat \<Rightarrow> int" where
  "spec_range pixels channel =
     Max (set (map (\<lambda>p. px p channel) pixels)) - Min (set (map (\<lambda>p. px p channel) pixels))"

definition spec_channel :: "pixel list \<Rightarrow> nat" where
  "spec_channel pixels =
     (let rRange = spec_range pixels 0;
          gRange = spec_range pixels 1;
          bRange = spec_range pixels 2
      in if rRange \<ge> gRange \<and> rRange \<ge> bRange then 0
         else if gRange \<ge> rRange \<and> gRange \<ge> bRange then 1
         else 2)"


text \<open>
  The hexadecimal format in the words of the specification: a channel as two lowercase
  hexadecimal digits, padded with a zero, and the pattern \<^verbatim>\<open>#[0-9a-f]{6}\<close>.
\<close>

definition hexPair :: "int \<Rightarrow> string" where
  "hexPair x = [hexDigit (nat x div 16), hexDigit (nat x mod 16)]"

definition matches_hex_colour :: "string \<Rightarrow> bool" where
  "matches_hex_colour s =
     (case s of
        [] \<Rightarrow> False
      | c # ds \<Rightarrow> c = CHR ''#'' \<and> length ds = 6 \<and> list_all (\<lambda>d. d \<in> set ''0123456789abcdef'') ds)"


text \<open>
  The sampling rules in the words of the specification, in exact arithmetic: the brightness
  of a pixel is \<open>(r + g + b) / 3\<close>; a pixel is kept when its alpha is at least 128 and its
  brightness lies between 5 and 250, both included; the saturation is
  \<open>(max - min) / max\<close>, or 0 when the maximum is 0. A kept pixel carries the double nearest
  to its saturation.
\<close>

definition spec_brightness :: "rgba \<Rightarrow> rat" where
  "spec_brightness q = (case q of (r, g, b, a) \<Rightarrow> of_int (uint r + uint g + uint b) / 3)"

definition spec_kept :: "rgba \<Rightarrow> bool" where
  "spec_kept q = (case q of (r, g, b, a) \<Rightarrow>
     128 \<le> uint a \<and> 5 \<le> spec_brightness q \<and> spec_brightness q \<le> 250)"

definition spec_saturation :: "int \<Rightarrow> int \<Rightarrow> int \<Rightarrow> rat" where
  "spec_saturation r g b =
     (if max r (max g b) = 0 then 0
      else of_int (max r (max g b) - min r (min g b)) / of_int (max r (max g b)))"

definition spec_sample :: "rgba \<Rightarrow> pixel" where
  "spec_sample q = (case q of (r, g, b, a) \<Rightarrow>
     (uint r, uint g, uint b, fl (spec_saturation (uint r) (uint g) (uint b))))"


text \<open>The colour count a call uses: the argument, or 6 when the argument is absent.\<close>

definition requestedCount :: "nat option \<Rightarrow> nat" where
  "requestedCount colorCountArg = (case colorCountArg of None \<Rightarrow> 6 | Some c \<Rightarrow> c)"


text \<open>
  The luminance in exact arithmetic, for comparison with the double the source computes.
\<close>

definition exact_luminance :: "int \<Rightarrow> int \<Rightarrow> int \<Rightarrow> rat" where
  "exact_luminance r g b =
     (299 / 1000 * of_int r + 587 / 1000 * of_int g + 114 / 1000 * of_int b) / 255"


text \<open>
  The standard transform from RGB to HSL in exact arithmetic, which the specification names:
  the lightness and the saturation as fractions, the hue in degrees. A returned integer is one
  of these values rounded to nearest when it differs from the value by at most one half.
\<close>

definition standard_lightness :: "int \<Rightarrow> int \<Rightarrow> int \<Rightarrow> rat" where
  "standard_lightness r0 g0 b0 =
     (let r = of_int r0 / 255; g = of_int g0 / 255; b = of_int b0 / 255;
          mx = max r (max g b); mn = min r (min g b)
      in (mx + mn) / 2)"

definition standard_saturation :: "int \<Rightarrow> int \<Rightarrow> int \<Rightarrow> rat" where
  "standard_saturation r0 g0 b0 =
     (let r = of_int r0 / 255; g = of_int g0 / 255; b = of_int b0 / 255;
          mx = max r (max g b); mn = min r (min g b);
          l = (mx + mn) / 2
      in if mx = mn then 0 else (mx - mn) / (1 - \<bar>2 * l - 1\<bar>))"

definition standard_hue :: "int \<Rightarrow> int \<Rightarrow> int \<Rightarrow> rat" where
  "standard_hue r0 g0 b0 =
     (let r = of_int r0 / 255; g = of_int g0 / 255; b = of_int b0 / 255;
          mx = max r (max g b); mn = min r (min g b);
          d = mx - mn
      in if mx = mn then 0
         else if mx = r then 60 * ((g - b) / d + (if g < b then 6 else 0))
         else if mx = g then 60 * ((b - r) / d + 2)
         else 60 * ((r - g) / d + 4))"


section \<open>Properties of the rounding\<close>

lemma bitlen_rat_bounds:
  assumes "0 < p"
  shows "(2::rat) powi (bitlen p - 1) \<le> of_int p \<and> of_int p < (2::rat) powi bitlen p"
proof -
  from bitlen_bounds[OF assms]
  have a: "2 ^ nat (bitlen p - 1) \<le> p" and b: "p < 2 ^ nat (bitlen p)" by auto
  have "bitlen p \<noteq> 0" using assms by (simp add: bitlen_eq_zero_iff)
  hence pos: "1 \<le> bitlen p" using bitlen_nonneg[of p] by linarith
  have "(of_int (2 ^ nat (bitlen p - 1)) :: rat) \<le> of_int p" using a by (simp only: of_int_le_iff)
  hence 1: "(2::rat) powi (bitlen p - 1) \<le> of_int p" using pos by (simp add: power_int_def)
  have "(of_int p :: rat) < of_int (2 ^ nat (bitlen p))" using b by (simp only: of_int_less_iff)
  hence 2: "of_int p < (2::rat) powi bitlen p" using pos by (simp add: power_int_def)
  from 1 2 show ?thesis by simp
qed

lemma ilog2_bounds:
  assumes "0 < x"
  shows "2 powi ilog2 x \<le> x \<and> x < 2 powi (ilog2 x + 1)"
proof -
  obtain p q where pq: "quotient_of x = (p, q)" by (cases "quotient_of x")
  have q: "0 < q" using quotient_of_denom_pos[OF pq] .
  have x: "x = of_int p / of_int q" using quotient_of_div[OF pq] .
  have p: "0 < p" using assms q x by (simp add: zero_less_divide_iff)
  define a where "a = bitlen p"
  define b where "b = bitlen q"
  note pb = bitlen_rat_bounds[OF p, folded a_def]
  note qb = bitlen_rat_bounds[OF q, folded b_def]
  have qpos: "(0::rat) < of_int q" using q by simp
  have ppos: "(0::rat) < of_int p" using p by simp
  have "x < 2 powi a / 2 powi (b - 1)"
    unfolding x using pb qb ppos
    by (intro frac_less) auto
  moreover have "(2::rat) powi (a - b + 1) = 2 powi a / 2 powi (b - 1)"
    using power_int_diff[of "2::rat" a "b - 1"] by (simp add: algebra_simps)
  ultimately have up: "x < 2 powi (a - b + 1)" by simp
  have "2 powi (a - 1) / 2 powi b < x"
    unfolding x using pb qb qpos
    by (intro frac_less2) (auto)
  moreover have "(2::rat) powi (a - b - 1) = 2 powi (a - 1) / 2 powi b"
    using power_int_diff[of "2::rat" "a - 1" b] by (simp add: algebra_simps)
  ultimately have lo: "2 powi (a - b - 1) < x" by simp
  show ?thesis
  proof (cases "2 powi (a - b) \<le> x")
    case True
    hence "ilog2 x = a - b" by (simp add: ilog2_def pq a_def b_def)
    thus ?thesis using True up by simp
  next
    case False
    hence "ilog2 x = a - b - 1" by (simp add: ilog2_def pq a_def b_def)
    thus ?thesis using False lo by simp
  qed
qed

lemma pow2_less_D: "(2::rat) powi m < 2 powi n \<Longrightarrow> m < n"
  using power_int_increasing[of n m "2::rat"] by (cases "m < n") auto

lemma pow2_le_D: "(2::rat) powi m \<le> 2 powi n \<Longrightarrow> m \<le> n"
  using power_int_strict_increasing[of n m "2::rat"] by (cases "m \<le> n") auto

lemma ilog2_mono:
  assumes "0 < x" "x \<le> y"
  shows "ilog2 x \<le> ilog2 y"
proof -
  have "2 powi ilog2 x \<le> x" using ilog2_bounds[OF assms(1)] by simp
  also have "x \<le> y" by fact
  also have "y < 2 powi (ilog2 y + 1)" using ilog2_bounds[of y] assms by simp
  finally have "(2::rat) powi ilog2 x < 2 powi (ilog2 y + 1)" .
  hence "ilog2 x < ilog2 y + 1" by (rule pow2_less_D)
  thus ?thesis by simp
qed

lemma rne_of_int [simp]: "rne (of_int k) = k"
  by (simp add: rne_def)

lemma rne_mono:
  assumes "x \<le> y"
  shows "rne x \<le> rne y"
proof (cases "\<lfloor>x\<rfloor> = \<lfloor>y\<rfloor>")
  case True
  thus ?thesis using assms by (auto simp: rne_def Let_def)
next
  case False
  hence lt: "\<lfloor>x\<rfloor> < \<lfloor>y\<rfloor>" using floor_mono[OF assms] by simp
  have "rne x \<le> \<lfloor>x\<rfloor> + 1" by (simp add: rne_def Let_def)
  moreover have "\<lfloor>y\<rfloor> \<le> rne y" by (simp add: rne_def Let_def)
  ultimately show ?thesis using lt by linarith
qed

lemma rne_ge: "of_int a \<le> x \<Longrightarrow> a \<le> rne x"
  using rne_mono[of "of_int a" x] by simp

lemma rne_le: "x \<le> of_int b \<Longrightarrow> rne x \<le> b"
  using rne_mono[of x "of_int b"] by simp

lemma flp_bounds:
  assumes "0 < x"
  shows "2 powi ilog2 x \<le> flp x \<and> flp x \<le> 2 powi (ilog2 x + 1)"
proof -
  define e where "e = ilog2 x"
  define u :: rat where "u = 2 powi (e - 52)"
  have u: "0 < u" by (simp add: u_def)
  have b: "2 powi e \<le> x" "x < 2 powi (e + 1)" using ilog2_bounds[OF assms] by (simp_all add: e_def)
  have e1: "2 powi e = 2 ^ 52 * u" by (simp add: u_def power_int_diff)
  have e2: "2 powi (e + 1) = 2 ^ 53 * u" by (simp add: u_def power_int_diff power_int_add)
  have "of_int (2 ^ 52) \<le> x / u" using b(1) u by (simp add: e1 pos_le_divide_eq)
  hence lo: "2 ^ 52 \<le> rne (x / u)" by (rule rne_ge)
  have "x / u \<le> of_int (2 ^ 53)" using b(2) u by (simp add: e2 pos_divide_le_eq)
  hence hi: "rne (x / u) \<le> 2 ^ 53" by (rule rne_le)
  have "flp x = of_int (rne (x / u)) * u" by (simp add: flp_def u_def e_def Let_def)
  moreover have "(2 ^ 52 :: rat) \<le> of_int (rne (x / u))" using lo by (metis of_int_le_iff of_int_numeral of_int_power)
  moreover have "of_int (rne (x / u)) \<le> (2 ^ 53 :: rat)" using hi by (metis of_int_le_iff of_int_numeral of_int_power)
  ultimately show ?thesis using u unfolding e1 e2 e_def[symmetric] by simp
qed

lemma flp_pos: "0 < x \<Longrightarrow> 0 < flp x"
  using flp_bounds[of x] zero_less_power_int[of "2::rat" "ilog2 x"] by linarith

lemma flp_mono:
  assumes "0 < x" "x \<le> y"
  shows "flp x \<le> flp y"
proof (cases "ilog2 x = ilog2 y")
  case True
  define u :: rat where "u = 2 powi (ilog2 y - 52)"
  have u: "0 < u" by (simp add: u_def)
  have "x / u \<le> y / u" using assms u by (simp add: divide_right_mono)
  hence "rne (x / u) \<le> rne (y / u)" by (rule rne_mono)
  hence "(of_int (rne (x / u)) :: rat) * u \<le> of_int (rne (y / u)) * u"
    using u by simp
  thus ?thesis by (simp add: flp_def True u_def Let_def)
next
  case False
  hence "ilog2 x + 1 \<le> ilog2 y" using ilog2_mono[OF assms] by simp
  hence "(2::rat) powi (ilog2 x + 1) \<le> 2 powi ilog2 y"
    by (simp add: power_int_increasing)
  moreover have "flp x \<le> 2 powi (ilog2 x + 1)" using flp_bounds[OF assms(1)] by simp
  moreover have "2 powi ilog2 y \<le> flp y" using flp_bounds[of y] assms by simp
  ultimately show ?thesis by linarith
qed

lemma fl_zero [simp]: "fl 0 = 0"
  by (simp add: fl_def)

lemma fl_minus: "fl (- x) = - fl x"
  by (simp add: fl_def)

lemma fl_pos: "0 < x \<Longrightarrow> 0 < fl x"
  by (simp add: fl_def flp_pos)

lemma fl_neg: "x < 0 \<Longrightarrow> fl x < 0"
  by (simp add: fl_def flp_pos)

lemma fl_nonneg: "0 \<le> x \<Longrightarrow> 0 \<le> fl x"
  using fl_pos[of x] by (cases "x = 0") (auto simp: less_le)

lemma fl_mono:
  assumes "x \<le> y"
  shows "fl x \<le> fl y"
proof -
  consider "0 < x" | "x = 0" | "x < 0" "0 \<le> y" | "x < 0" "y < 0" by linarith
  thus ?thesis
  proof cases
    case 1
    thus ?thesis using assms by (simp add: fl_def flp_mono)
  next
    case 2
    thus ?thesis using assms fl_nonneg[of y] by simp
  next
    case 3
    thus ?thesis using fl_neg[of x] fl_nonneg[of y] by linarith
  next
    case 4
    hence "flp (- y) \<le> flp (- x)" using assms by (intro flp_mono) auto
    thus ?thesis using 4 by (simp add: fl_def)
  qed
qed

lemma flp_of_int:
  assumes "0 < k" "k < 2 ^ 53"
  shows "flp (of_int k) = of_int k"
proof -
  define e where "e = ilog2 (of_int k)"
  have kpos: "(0::rat) < of_int k" using assms by simp
  have "2 powi e \<le> (of_int k :: rat)" using ilog2_bounds[OF kpos] by (simp add: e_def)
  also have "(of_int k :: rat) < of_int (2 ^ 53)" using assms(2) by (simp only: of_int_less_iff)
  finally have "(2::rat) powi e < 2 powi 53" by simp
  hence e: "e < 53" by (rule pow2_less_D)
  define m where "m = nat (52 - e)"
  have u: "(2::rat) powi (e - 52) = inverse (2 ^ m)"
    using e by (simp add: m_def power_int_def) (metis power_inverse inverse_eq_divide)
  have "of_int k / (2 powi (e - 52) :: rat) = of_int (k * 2 ^ m)"
    by (simp add: u divide_inverse)
  hence "rne (of_int k / (2 powi (e - 52) :: rat)) = k * 2 ^ m"
    by (simp only: rne_of_int)
  thus ?thesis by (simp add: flp_def e_def[symmetric] u Let_def)
qed

lemma fl_of_int:
  assumes "\<bar>k\<bar> < 2 ^ 53"
  shows "fl (of_int k) = of_int k"
proof -
  consider "k = 0" | "0 < k" | "k < 0" by linarith
  thus ?thesis
  proof cases
    case 1 thus ?thesis by simp
  next
    case 2 thus ?thesis using assms flp_of_int[of k] by (simp add: fl_def)
  next
    case 3
    hence "flp (of_int (- k)) = of_int (- k)" using assms by (intro flp_of_int) auto
    thus ?thesis using 3 by (simp add: fl_def)
  qed
qed

lemma fl_le_int: "x \<le> of_int k \<Longrightarrow> \<bar>k\<bar> < 2 ^ 53 \<Longrightarrow> fl x \<le> of_int k"
  using fl_mono[of x "of_int k"] fl_of_int[of k] by simp

lemma fl_ge_int: "of_int k \<le> x \<Longrightarrow> \<bar>k\<bar> < 2 ^ 53 \<Longrightarrow> of_int k \<le> fl x"
  using fl_mono[of "of_int k" x] fl_of_int[of k] by simp


lemma fl_le_zero_iff: "fl x \<le> 0 \<longleftrightarrow> x \<le> 0"
proof
  assume le: "fl x \<le> 0"
  show "x \<le> 0"
  proof (rule ccontr)
    assume "\<not> x \<le> 0"
    hence "0 < fl x" by (intro fl_pos) simp
    thus False using le by simp
  qed
next
  assume "x \<le> 0"
  hence "fl x \<le> fl 0" by (rule fl_mono)
  thus "fl x \<le> 0" by simp
qed

lemma fl_unit: "0 \<le> x \<Longrightarrow> x \<le> 1 \<Longrightarrow> 0 \<le> fl x \<and> fl x \<le> 1"
  using fl_nonneg[of x] fl_le_int[of x 1] by simp

lemma fl_between:
  assumes "of_int a \<le> x" "x \<le> of_int b" "\<bar>a\<bar> < 2 ^ 53" "\<bar>b\<bar> < 2 ^ 53"
  shows "of_int a \<le> fl x \<and> fl x \<le> of_int b"
  using fl_ge_int[OF assms(1,3)] fl_le_int[OF assms(2,4)] by simp

lemma rne_error: "\<bar>of_int (rne y) - y\<bar> \<le> 1 / 2"
proof -
  have "of_int \<lfloor>y\<rfloor> \<le> y" "y < of_int \<lfloor>y\<rfloor> + 1" by linarith+
  thus ?thesis by (auto simp: rne_def Let_def)
qed

lemma flp_error:
  assumes "0 < x"
  shows "\<bar>flp x - x\<bar> \<le> x / 2 ^ 53"
proof -
  define u :: rat where "u = 2 powi (ilog2 x - 52)"
  have u: "0 < u" by (simp add: u_def)
  have "2 powi ilog2 x \<le> x" using ilog2_bounds[OF assms] by simp
  moreover have "(2::rat) powi ilog2 x = 2 ^ 52 * u" by (simp add: u_def power_int_diff)
  ultimately have ux: "2 ^ 52 * u \<le> x" by simp
  have "flp x - x = (of_int (rne (x / u)) - x / u) * u"
    using u by (simp add: flp_def u_def Let_def algebra_simps)
  hence "\<bar>flp x - x\<bar> = \<bar>of_int (rne (x / u)) - x / u\<bar> * u"
    using u by (simp add: abs_mult)
  also have "\<dots> \<le> 1 / 2 * u" using rne_error[of "x / u"] u by (intro mult_right_mono) simp_all
  also have "\<dots> \<le> x / 2 ^ 53" using ux by simp
  finally show ?thesis .
qed

lemma fl_error:
  assumes "0 \<le> x"
  shows "(1 - 1 / 2 ^ 53) * x \<le> fl x \<and> fl x \<le> (1 + 1 / 2 ^ 53) * x"
proof (cases "x = 0")
  case True
  thus ?thesis by simp
next
  case False
  hence pos: "0 < x" using assms by simp
  have f: "fl x = flp x" using pos by (simp add: fl_def)
  have a: "flp x - x \<le> x / 2 ^ 53" "x - flp x \<le> x / 2 ^ 53"
    using flp_error[OF pos] by (simp_all only: abs_le_iff minus_diff_eq)
  have e: "(1 - 1 / 2 ^ 53) * x = x - x / 2 ^ 53" "(1 + 1 / 2 ^ 53) * x = x + x / 2 ^ 53"
    by (simp_all only: left_diff_distrib distrib_right mult_1 times_divide_eq_left)
  show ?thesis unfolding f e using a by linarith
qed

lemma fl_lower:
  assumes "0 \<le> y" "y \<le> x"
  shows "(1 - 1 / 2 ^ 53) * y \<le> fl x"
proof -
  have "(1 - 1 / 2 ^ 53) * y \<le> (1 - 1 / 2 ^ 53) * x" using assms(2) by (intro mult_left_mono) simp_all
  also have "\<dots> \<le> fl x" using fl_error[of x] assms by simp
  finally show ?thesis .
qed

lemma fl_upper:
  assumes "0 \<le> x" "x \<le> y"
  shows "fl x \<le> (1 + 1 / 2 ^ 53) * y"
proof -
  have "fl x \<le> (1 + 1 / 2 ^ 53) * x" using fl_error[of x] assms by simp
  also have "\<dots> \<le> (1 + 1 / 2 ^ 53) * y" using assms(2) by (intro mult_left_mono) simp_all
  finally show ?thesis .
qed


section \<open>Properties of sorting and of the recursion\<close>

lemma insert_by_insort_key:
  fixes f :: "'a \<Rightarrow> 'k::linorder"
  assumes "\<And>x y. cmp x y \<le> 0 \<longleftrightarrow> f x \<le> f y"
  shows "insert_by cmp x ys = insort_key f x ys"
  by (induction ys) (simp_all add: assms)

lemma array_sort_sort_key:
  fixes f :: "'a \<Rightarrow> 'k::linorder"
  assumes "\<And>x y. cmp x y \<le> 0 \<longleftrightarrow> f x \<le> f y"
  shows "array_sort cmp xs = sort_key f xs"
proof -
  have "insert_by cmp = insort_key f"
    by (intro ext) (rule insert_by_insort_key[OF assms])
  thus ?thesis by (simp add: array_sort_def sort_key_def)
qed

lemma channel_sort:
  "array_sort (\<lambda>a b. px a c - px b c) pixels = sort_key (\<lambda>p. px p c) pixels"
  by (rule array_sort_sort_key) simp

lemma sortedPixels_sort_key:
  "sortedPixels pixels = sort_key (\<lambda>p. px p (splitChannel pixels)) pixels"
  by (simp add: sortedPixels_def channel_sort)

lemma length_sortedPixels [simp]: "length (sortedPixels pixels) = length pixels"
  by (simp add: sortedPixels_sort_key)

lemma mset_sortedPixels [simp]: "mset (sortedPixels pixels) = mset pixels"
  by (simp add: sortedPixels_sort_key)

lemma halves_append: "lowerHalf pixels @ upperHalf pixels = sortedPixels pixels"
  by (simp add: lowerHalf_def upperHalf_def)

lemma mset_halves: "mset (lowerHalf pixels) + mset (upperHalf pixels) = mset pixels"
  by (metis halves_append mset_append mset_sortedPixels)

lemma length_lowerHalf [simp]: "length (lowerHalf pixels) = length pixels div 2"
  by (simp add: lowerHalf_def)

lemma length_upperHalf [simp]: "length (upperHalf pixels) = length pixels - length pixels div 2"
  by (simp add: upperHalf_def)

lemma medianCut_base:
  "depth = 0 \<or> pixels = [] \<Longrightarrow>
     medianCut pixels depth = (if pixels = [] then Some [] else Some [averageBucket pixels])"
  by (subst medianCut.simps) auto

lemma medianCut_rec:
  "depth \<noteq> 0 \<Longrightarrow> pixels \<noteq> [] \<Longrightarrow>
     medianCut pixels depth =
       Option.bind (medianCut (lowerHalf pixels) (depth - 1)) (\<lambda>lower.
       Option.bind (medianCut (upperHalf pixels) (depth - 1)) (\<lambda>upper.
         Some (lower @ upper)))"
  by (subst medianCut.simps) (simp add: Let_def lowerHalf_def upperHalf_def sortedPixels_def)

lemma medianCut_returns:
  "0 \<le> depth \<Longrightarrow> \<exists>buckets. medianCut pixels depth = Some buckets"
proof (induction "nat depth" arbitrary: depth pixels)
  case 0
  thus ?case by (simp add: medianCut_base)
next
  case (Suc n)
  hence d: "depth \<noteq> 0" "0 \<le> depth - 1" "n = nat (depth - 1)" by auto
  show ?case
  proof (cases "pixels = []")
    case True
    thus ?thesis by (simp add: medianCut_base)
  next
    case False
    from Suc.hyps(1)[OF d(3) d(2)] obtain lo where lo: "medianCut (lowerHalf pixels) (depth - 1) = Some lo"
      by blast
    from Suc.hyps(1)[OF d(3) d(2)] obtain hi where hi: "medianCut (upperHalf pixels) (depth - 1) = Some hi"
      by blast
    show ?thesis by (simp add: medianCut_rec[OF d(1) False] lo hi)
  qed
qed

lemmas medianCut_partial_induct = medianCut.raw_induct[rotated, consumes 1, case_names step]

lemma medianCut_parts:
  assumes "medianCut pixels depth = Some buckets"
  shows "\<exists>parts. mset (concat parts) = mset pixels \<and> [] \<notin> set parts \<and> buckets = map averageBucket parts"
  using assms
proof (induction pixels depth buckets rule: medianCut_partial_induct)
  case (step mc pixels depth buckets)
  note 1 = step
  show ?case
  proof (cases "depth = 0 \<or> pixels = []")
    case True
    show ?thesis
    proof (cases "pixels = []")
      case True
      with 1(2) have "buckets = []" by simp
      thus ?thesis using True by (intro exI[of _ "[]"]) simp
    next
      case False
      with 1(2) True have "buckets = [averageBucket pixels]" by simp
      thus ?thesis using False by (intro exI[of _ "[pixels]"]) simp
    qed
  next
    case False
    with 1(2) obtain lo hi where
      lo: "mc (lowerHalf pixels) (depth - 1) = Some lo" and
      hi: "mc (upperHalf pixels) (depth - 1) = Some hi" and
      b: "buckets = lo @ hi"
      by (auto simp: Let_def lowerHalf_def upperHalf_def sortedPixels_def bind_eq_Some_conv)
    from 1(1)[OF lo] obtain pl where pl: "mset (concat pl) = mset (lowerHalf pixels)" "[] \<notin> set pl" "lo = map averageBucket pl" by blast
    from 1(1)[OF hi] obtain ph where ph: "mset (concat ph) = mset (upperHalf pixels)" "[] \<notin> set ph" "hi = map averageBucket ph" by blast
    show ?thesis
      using pl ph b mset_halves[of pixels]
      by (intro exI[of _ "pl @ ph"]) auto
  qed
qed

lemma admissible_no_result:
  "option.admissible (\<lambda>f :: pixel list \<times> int \<Rightarrow> bucket list option.
      \<forall>pixels depth. depth < 0 \<longrightarrow> pixels \<noteq> [] \<longrightarrow> f (pixels, depth) = None)"
proof (rule ccpo.admissibleI)
  fix A :: "(pixel list \<times> int \<Rightarrow> bucket list option) set"
  assume P: "\<forall>f\<in>A. \<forall>pixels depth. depth < 0 \<longrightarrow> pixels \<noteq> [] \<longrightarrow> f (pixels, depth) = None"
  show "\<forall>pixels depth. depth < 0 \<longrightarrow> pixels \<noteq> [] \<longrightarrow> option.lub_fun A (pixels, depth) = None"
  proof (intro allI impI)
    fix pixels :: "pixel list" and depth :: int
    assume "depth < 0" "pixels \<noteq> []"
    hence "{y. \<exists>f\<in>A. y = f (pixels, depth)} \<subseteq> {None}" using P by auto
    thus "option.lub_fun A (pixels, depth) = None"
      by (simp add: fun_lub_def flat_lub_def)
  qed
qed

lemma upperHalf_nonempty: "pixels \<noteq> [] \<Longrightarrow> upperHalf pixels \<noteq> []"
  by (cases pixels) (auto simp: upperHalf_def)

lemma medianCut_negative_depth_all:
  "\<forall>pixels depth. depth < 0 \<longrightarrow> pixels \<noteq> [] \<longrightarrow> medianCut pixels depth = None"
proof (induction rule: medianCut.fixp_induct)
  case 1
  show ?case using admissible_no_result by simp
next
  case 2
  show ?case by simp
next
  case (3 f)
  show ?case
  proof (intro allI impI)
    fix pixels :: "pixel list" and depth :: int
    assume d: "depth < 0" and p: "pixels \<noteq> []"
    have u: "upperHalf pixels \<noteq> []" by (rule upperHalf_nonempty[OF p])
    have "f (upperHalf pixels) (depth - 1) = None" using 3 u d by simp
    thus "(if depth = 0 \<or> length pixels = 0
          then if length pixels = 0 then Some [] else Some [averageBucket pixels]
          else let channel = splitChannel pixels;
                   sorted = array_sort (\<lambda>a b. px a channel - px b channel) pixels;
                   mid = length sorted div 2
               in Option.bind (f (take mid sorted) (depth - 1))
                    (\<lambda>lower. Option.bind (f (drop mid sorted) (depth - 1))
                       (\<lambda>upper. Some (lower @ upper)))) = None"
      using d p
      by (simp add: Let_def upperHalf_def sortedPixels_def)
  qed
qed

lemma medianCut_negative_depth:
  "depth < 0 \<Longrightarrow> pixels \<noteq> [] \<Longrightarrow> medianCut pixels depth = None"
  using medianCut_negative_depth_all by blast

lemma count_averageBucket [simp]: "count (averageBucket part) = length part"
  by (simp add: averageBucket_def Let_def)

lemma sum_count_parts: "sum_list (map count (map averageBucket parts)) = length (concat parts)"
  by (induction parts) simp_all

lemma medianCut_three_pixels: "medianCut [(255, 0, 0, 1), (0, 0, 255, 1), (100, 200, 50, 3 / 4)] 1 =
     Some [\<lparr>bucket_r = 0, bucket_g = 0, bucket_b = 255, saturation = 1, count = 1\<rparr>,
           \<lparr>bucket_r = 178, bucket_g = 100, bucket_b = 25, saturation = 7 / 8, count = 2\<rparr>]"
  by code_simp


lemma foldl_add_sum_list:
  fixes f :: "'a \<Rightarrow> int"
  shows "foldl (\<lambda>acc p. acc + f p) a xs = a + sum_list (map f xs)"
  by (induction xs arbitrary: a) simp_all

lemma sum_list_const:
  fixes f :: "'a \<Rightarrow> int"
  assumes "\<forall>p\<in>set xs. f p = c"
  shows "sum_list (map f xs) = int (length xs) * c"
  using assms by (induction xs) (simp_all add: algebra_simps)

lemma sum_list_bounds:
  fixes f :: "'a \<Rightarrow> int"
  assumes "\<forall>p\<in>set xs. 0 \<le> f p \<and> f p \<le> 255"
  shows "0 \<le> sum_list (map f xs) \<and> sum_list (map f xs) \<le> 255 * int (length xs)"
  using assms by (induction xs) auto

lemma Math_round_of_int [simp]: "Math_round (of_int k) = k"
  by (simp add: Math_round_def) linarith

lemma Math_round_bounds:
  assumes "of_int lo \<le> x" "x \<le> of_int hi"
  shows "lo \<le> Math_round x \<and> Math_round x \<le> hi"
proof -
  have "lo \<le> \<lfloor>x + 1 / 2\<rfloor>" using assms(1) by (simp add: le_floor_iff)
  moreover have "\<lfloor>x + 1 / 2\<rfloor> \<le> hi"
  proof -
    have "x + 1 / 2 < of_int (hi + 1)" using assms(2) by simp
    hence "\<lfloor>x + 1 / 2\<rfloor> < hi + 1" by (simp only: floor_less_iff)
    thus ?thesis by simp
  qed
  ultimately show ?thesis by (simp add: Math_round_def)
qed

lemma average_exact:
  assumes "0 < n" "\<bar>c\<bar> < 2 ^ 53"
  shows "Math_round (fdiv (of_int (int n * c)) (of_nat n)) = c"
proof -
  have "(of_int (int n * c) :: rat) / of_nat n = of_int c" using assms(1) by simp
  thus ?thesis by (simp add: fdiv_def fl_of_int[OF assms(2)])
qed

lemma average_bounds:
  assumes "0 < n" "0 \<le> s" "s \<le> 255 * int n"
  shows "0 \<le> Math_round (fdiv (of_int s) (of_nat n)) \<and> Math_round (fdiv (of_int s) (of_nat n)) \<le> 255"
proof -
  have n: "(0::rat) < of_nat n" using assms(1) by simp
  have "(of_int s :: rat) \<le> of_int (255 * int n)" using assms(3) by (simp only: of_int_le_iff)
  hence "(of_int s :: rat) / of_nat n \<le> 255" using n by (simp add: pos_divide_le_eq)
  hence hi: "fl (of_int s / of_nat n) \<le> of_int 255" using fl_le_int[of "of_int s / of_nat n" 255] by simp
  have "(0::rat) \<le> of_int s / of_nat n" using assms(2) by simp
  hence lo: "of_int 0 \<le> fl (of_int s / of_nat n)" using fl_nonneg by simp
  show ?thesis unfolding fdiv_def by (rule Math_round_bounds[OF lo hi])
qed

lemma averageBucket_uniform:
  assumes "part \<noteq> []" "\<forall>p\<in>set part. px p 0 = r \<and> px p 1 = g \<and> px p 2 = b"
    and "\<bar>r\<bar> < 2 ^ 53" "\<bar>g\<bar> < 2 ^ 53" "\<bar>b\<bar> < 2 ^ 53"
  shows "bucket_r (averageBucket part) = r \<and> bucket_g (averageBucket part) = g \<and>
         bucket_b (averageBucket part) = b"
proof -
  have n: "0 < length part" using assms(1) by simp
  have "sum_list (map (\<lambda>p. px p 0) part) = int (length part) * r"
       "sum_list (map (\<lambda>p. px p 1) part) = int (length part) * g"
       "sum_list (map (\<lambda>p. px p 2) part) = int (length part) * b"
    using assms(2) by (simp_all add: sum_list_const)
  thus ?thesis
    using average_exact[OF n assms(3)] average_exact[OF n assms(4)] average_exact[OF n assms(5)]
    by (simp add: averageBucket_def Let_def foldl_add_sum_list)
qed

lemma averageBucket_valid:
  assumes "part \<noteq> []" "\<forall>p\<in>set part. valid_pixel p"
  shows "0 \<le> bucket_r (averageBucket part) \<and> bucket_r (averageBucket part) \<le> 255 \<and>
         0 \<le> bucket_g (averageBucket part) \<and> bucket_g (averageBucket part) \<le> 255 \<and>
         0 \<le> bucket_b (averageBucket part) \<and> bucket_b (averageBucket part) \<le> 255"
proof -
  have n: "0 < length part" using assms(1) by simp
  have r: "\<forall>p\<in>set part. 0 \<le> px p 0 \<and> px p 0 \<le> 255"
    and g: "\<forall>p\<in>set part. 0 \<le> px p 1 \<and> px p 1 \<le> 255"
    and b: "\<forall>p\<in>set part. 0 \<le> px p 2 \<and> px p 2 \<le> 255"
    using assms(2) by (simp_all add: valid_pixel_def)
  show ?thesis
    using average_bounds[OF n] sum_list_bounds[OF r] sum_list_bounds[OF g] sum_list_bounds[OF b]
    by (simp add: averageBucket_def Let_def foldl_add_sum_list)
qed

lemma part_subset:
  assumes "mset (concat parts) = mset pixels" "part \<in> set parts"
  shows "set part \<subseteq> set pixels"
proof -
  have "set (concat parts) = set pixels" using assms(1) by (rule mset_eq_setD)
  thus ?thesis using assms(2) by auto
qed

lemma medianCut_length:
  "0 \<le> depth \<Longrightarrow> medianCut pixels depth = Some buckets \<Longrightarrow>
     length buckets = min (length pixels) (2 ^ nat depth)"
proof (induction "nat depth" arbitrary: depth pixels buckets)
  case 0
  thus ?case by (cases pixels) (auto simp: medianCut_base split: if_splits)
next
  case (Suc n)
  hence d: "depth \<noteq> 0" "0 \<le> depth - 1" "n = nat (depth - 1)" by auto
  have p2: "(2::nat) ^ nat depth = 2 * 2 ^ n" using Suc.hyps(2)[symmetric] by simp
  show ?case
  proof (cases "pixels = []")
    case True
    thus ?thesis using Suc.prems by (simp add: medianCut_base)
  next
    case False
    from Suc.prems(2) obtain lo hi where
      lo: "medianCut (lowerHalf pixels) (depth - 1) = Some lo" and
      hi: "medianCut (upperHalf pixels) (depth - 1) = Some hi" and
      b: "buckets = lo @ hi"
      by (auto simp: medianCut_rec[OF d(1) False] bind_eq_Some_conv)
    have "length lo = min (length pixels div 2) (2 ^ n)"
      using Suc.hyps(1)[OF d(3) d(2) lo] d(3) by simp
    moreover have "length hi = min (length pixels - length pixels div 2) (2 ^ n)"
      using Suc.hyps(1)[OF d(3) d(2) hi] d(3) by simp
    ultimately show ?thesis unfolding b p2 by (simp add: min_def) linarith
  qed
qed


section \<open>The partition invariant of median cut\<close>

text \<open>
  Claim C9. For every pixel list and every depth, the buckets \<^verbatim>\<open>medianCut\<close> returns
  partition the input in weight: the \<^verbatim>\<open>count\<close> fields add up to the length of the input.
  The buckets are the averages of non-empty parts that together are a rearrangement of the
  input, so no pixel is counted twice and none is dropped. The call returns exactly when the
  depth is not negative or the list is empty.
\<close>

theorem medianCut_counts_partition:
  "((\<exists>buckets. medianCut pixels depth = Some buckets) \<longleftrightarrow> 0 \<le> depth \<or> pixels = []) \<and>
   (\<forall>buckets. medianCut pixels depth = Some buckets \<longrightarrow>
      sum_list (map count buckets) = length pixels \<and>
      (\<exists>parts. mset (concat parts) = mset pixels \<and> [] \<notin> set parts \<and>
         buckets = map averageBucket parts))"
proof (intro conjI impI allI)
  show "(\<exists>buckets. medianCut pixels depth = Some buckets) \<longleftrightarrow> 0 \<le> depth \<or> pixels = []"
  proof
    assume "\<exists>buckets. medianCut pixels depth = Some buckets"
    thus "0 \<le> depth \<or> pixels = []"
      using medianCut_negative_depth[of depth pixels] by fastforce
  next
    assume "0 \<le> depth \<or> pixels = []"
    thus "\<exists>buckets. medianCut pixels depth = Some buckets"
      using medianCut_returns[of depth pixels] by (auto simp: medianCut_base)
  qed
next
  fix buckets
  assume mc: "medianCut pixels depth = Some buckets"
  from medianCut_parts[OF mc] obtain parts where
    p: "mset (concat parts) = mset pixels" "[] \<notin> set parts" "buckets = map averageBucket parts"
    by blast
  have "sum_list (map count buckets) = length (concat parts)"
    by (simp only: p(3) sum_count_parts)
  also have "\<dots> = length pixels" using p(1) by (metis size_mset)
  finally show "sum_list (map count buckets) = length pixels" .
  from p show "\<exists>parts. mset (concat parts) = mset pixels \<and> [] \<notin> set parts \<and>
         buckets = map averageBucket parts" by blast
qed

theorem medianCut_counts_partition_witness:
  "(0::int) \<le> 1 \<and>
   medianCut [(255, 0, 0, 1), (0, 0, 255, 1), (100, 200, 50, 3 / 4)] 1 =
     Some [\<lparr>bucket_r = 0, bucket_g = 0, bucket_b = 255, saturation = 1, count = 1\<rparr>,
           \<lparr>bucket_r = 178, bucket_g = 100, bucket_b = 25, saturation = 7 / 8, count = 2\<rparr>] \<and>
   sum_list (map count
     [\<lparr>bucket_r = 0, bucket_g = 0, bucket_b = 255, saturation = 1, count = 1\<rparr>,
      \<lparr>bucket_r = 178, bucket_g = 100, bucket_b = 25, saturation = 7 / 8, count = 2\<rparr>]) =
   length [(255, 0, 0, 1), (0, 0, 255, 1), (100, 200, 50, 3 / 4) :: pixel]"
  using medianCut_counts_partition[of "[(255, 0, 0, 1), (0, 0, 255, 1), (100, 200, 50, 3 / 4)]" 1] medianCut_three_pixels
  by simp


section \<open>Median cut on a single colour\<close>

text \<open>
  Claim C1 says that a non-empty list of pixels of one colour yields exactly one bucket for
  every depth above 0. The recursion splits at the midpoint whatever the ranges are, so two
  equal pixels at depth 1 already give two buckets.
\<close>

theorem medianCut_single_colour_counterexample:
  "medianCut [(200, 100, 50, 3 / 4), (200, 100, 50, 3 / 4)] 1 =
     Some [\<lparr>bucket_r = 200, bucket_g = 100, bucket_b = 50, saturation = 3 / 4, count = 1\<rparr>,
           \<lparr>bucket_r = 200, bucket_g = 100, bucket_b = 50, saturation = 3 / 4, count = 1\<rparr>]"
  by code_simp

text \<open>
  Claim C1, amended. For a non-empty list of pixels that all have the colour \<open>(r, g, b)\<close>,
  channels from 0 to 255, and every depth that is not negative, \<^verbatim>\<open>medianCut\<close> returns
  \<open>min n (2 ^ depth)\<close> buckets for \<open>n\<close> pixels (one bucket exactly when the list has one pixel or
  the depth is 0); every bucket is non-empty and its \<open>r\<close>, \<open>g\<close>, \<open>b\<close> are the shared colour exactly.
\<close>

theorem medianCut_single_colour:
  assumes "pixels \<noteq> []"
    and "\<forall>p\<in>set pixels. px p 0 = r \<and> px p 1 = g \<and> px p 2 = b"
    and "0 \<le> r \<and> r \<le> 255 \<and> 0 \<le> g \<and> g \<le> 255 \<and> 0 \<le> b \<and> b \<le> 255"
    and "0 \<le> depth"
  shows "\<exists>buckets. medianCut pixels depth = Some buckets \<and>
           length buckets = min (length pixels) (2 ^ nat depth) \<and>
           (\<forall>c\<in>set buckets. bucket_r c = r \<and> bucket_g c = g \<and> bucket_b c = b \<and> 1 \<le> count c)"
proof -
  from medianCut_returns[OF assms(4)] obtain buckets where mc: "medianCut pixels depth = Some buckets"
    by blast
  from medianCut_parts[OF mc] obtain parts where
    p: "mset (concat parts) = mset pixels" "[] \<notin> set parts" "buckets = map averageBucket parts"
    by blast
  have rgb: "\<bar>r\<bar> < 2 ^ 53" "\<bar>g\<bar> < 2 ^ 53" "\<bar>b\<bar> < 2 ^ 53" using assms(3) by auto
  have "bucket_r c = r \<and> bucket_g c = g \<and> bucket_b c = b \<and> 1 \<le> count c" if "c \<in> set buckets" for c
  proof -
    from that p(3) obtain part where part: "part \<in> set parts" "c = averageBucket part" by auto
    have ne: "part \<noteq> []" using part(1) p(2) by auto
    have "\<forall>q\<in>set part. px q 0 = r \<and> px q 1 = g \<and> px q 2 = b"
      using part_subset[OF p(1) part(1)] assms(2) by auto
    from averageBucket_uniform[OF ne this rgb] ne show ?thesis
      by (simp add: part(2) Suc_le_eq)
  qed
  thus ?thesis using mc medianCut_length[OF assms(4) mc] by blast
qed

theorem medianCut_single_colour_witness:
  "medianCut [(200, 100, 50, 3 / 4), (200, 100, 50, 3 / 4), (200, 100, 50, 3 / 4)] 1 =
     Some [\<lparr>bucket_r = 200, bucket_g = 100, bucket_b = 50, saturation = 3 / 4, count = 1\<rparr>,
           \<lparr>bucket_r = 200, bucket_g = 100, bucket_b = 50, saturation = 3 / 4, count = 2\<rparr>] \<and>
   (\<exists>buckets. medianCut [(200, 100, 50, 3 / 4), (200, 100, 50, 3 / 4), (200, 100, 50, 3 / 4)] 1 = Some buckets \<and>
      length buckets = 2 \<and> bucket_r (hd buckets) = 200)"
proof -
  let ?ps = "[(200, 100, 50, 3 / 4), (200, 100, 50, 3 / 4), (200, 100, 50, 3 / 4)] :: pixel list"
  have ev: "medianCut ?ps 1 =
     Some [\<lparr>bucket_r = 200, bucket_g = 100, bucket_b = 50, saturation = 3 / 4, count = 1\<rparr>,
           \<lparr>bucket_r = 200, bucket_g = 100, bucket_b = 50, saturation = 3 / 4, count = 2\<rparr>]"
    by code_simp
  have h1: "?ps \<noteq> []" by simp
  have h2: "\<forall>p\<in>set ?ps. px p 0 = 200 \<and> px p 1 = 100 \<and> px p 2 = 50" by simp
  have h3: "(0::int) \<le> 200 \<and> (200::int) \<le> 255 \<and> (0::int) \<le> 100 \<and> (100::int) \<le> 255 \<and> (0::int) \<le> 50 \<and> (50::int) \<le> 255" by simp
  have h4: "(0::int) \<le> 1" by simp
  from medianCut_single_colour[OF h1 h2 h3 h4] obtain buckets where
    b: "medianCut ?ps 1 = Some buckets" "length buckets = min (length ?ps) (2 ^ nat 1)"
       "\<forall>c\<in>set buckets. bucket_r c = 200 \<and> bucket_g c = 100 \<and> bucket_b c = 50 \<and> 1 \<le> count c"
    by blast
  have "length buckets = 2" using b(2) by simp
  moreover have "bucket_r (hd buckets) = 200" using b(3) \<open>length buckets = 2\<close>
    by (cases buckets) auto
  ultimately show ?thesis using ev b(1) by blast
qed

section \<open>The recursive step of median cut\<close>

lemma foldl_min_Min:
  fixes f :: "'a \<Rightarrow> int"
  shows "foldl (\<lambda>m p. if f p < m then f p else m) a xs = Min (insert a (f ` set xs))"
proof -
  have "foldl (\<lambda>m p. if f p < m then f p else m) a xs = fold min (map f xs) a"
    by (induction xs arbitrary: a) (simp_all add: min_def not_less)
  also have "\<dots> = Min (set (a # map f xs))" by (simp only: Min.set_eq_fold)
  finally show ?thesis by simp
qed

lemma foldl_max_Max:
  fixes f :: "'a \<Rightarrow> int"
  shows "foldl (\<lambda>m p. if f p > m then f p else m) a xs = Max (insert a (f ` set xs))"
proof -
  have "foldl (\<lambda>m p. if f p > m then f p else m) a xs = fold max (map f xs) a"
    by (induction xs arbitrary: a) (simp_all add: max_def not_less)
  also have "\<dots> = Max (set (a # map f xs))" by (simp only: Max.set_eq_fold)
  finally show ?thesis by simp
qed

lemma getColorRange_spec:
  assumes "pixels \<noteq> []" "\<forall>p\<in>set pixels. 0 \<le> px p c \<and> px p c \<le> 255"
  shows "getColorRange pixels c = spec_range pixels c"
proof -
  let ?S = "(\<lambda>p. px p c) ` set pixels"
  have fin: "finite ?S" and ne: "?S \<noteq> {}" using assms(1) by auto
  have "Min ?S \<in> ?S" "Max ?S \<in> ?S" using fin ne by (auto intro: Min_in Max_in)
  hence "Min ?S \<le> 255" "0 \<le> Max ?S" using assms(2) by auto
  moreover have "Min (insert 255 ?S) = min 255 (Min ?S)" by (rule Min_insert[OF fin ne])
  moreover have "Max (insert 0 ?S) = max 0 (Max ?S)" by (rule Max_insert[OF fin ne])
  ultimately have "Min (insert 255 ?S) = Min ?S" "Max (insert 0 ?S) = Max ?S"
    by (simp_all only: min_def max_def if_False if_True not_le split: if_splits) auto
  thus ?thesis
    by (simp add: getColorRange_def spec_range_def Let_def foldl_min_Min foldl_max_Max)
qed

lemma splitChannel_spec:
  assumes "pixels \<noteq> []" "\<forall>p\<in>set pixels. valid_pixel p"
  shows "splitChannel pixels = spec_channel pixels"
proof -
  have "getColorRange pixels 0 = spec_range pixels 0"
       "getColorRange pixels 1 = spec_range pixels 1"
       "getColorRange pixels 2 = spec_range pixels 2"
    using assms by (auto intro!: getColorRange_spec simp: valid_pixel_def)
  thus ?thesis by (simp add: splitChannel_def spec_channel_def)
qed

lemma step_example_channel:
  "spec_channel [(10, 200, 30, 1 / 2), (10, 90, 250, 3 / 4), (10, 200, 30, 0)] = 2"
  by code_simp

lemma step_example_sort:
  "sort_key (\<lambda>p. px p 2) [(10, 200, 30, 1 / 2), (10, 90, 250, 3 / 4), (10, 200, 30, 0)]
     = [(10, 200, 30, 1 / 2), (10, 200, 30, 0), (10, 90, 250, 3 / 4)]"
  by code_simp

lemma step_example_lower:
  "medianCut [(10, 200, 30, 1 / 2)] 0 =
     Some [\<lparr>bucket_r = 10, bucket_g = 200, bucket_b = 30, saturation = 1 / 2, count = 1\<rparr>]"
  by code_simp

lemma step_example_upper:
  "medianCut [(10, 200, 30, 0), (10, 90, 250, 3 / 4)] 0 =
     Some [\<lparr>bucket_r = 10, bucket_g = 145, bucket_b = 140, saturation = 3 / 8, count = 2\<rparr>]"
  by code_simp

text \<open>
  Claim C2. On a non-empty pixel set (channels from 0 to 255) and a depth other than 0,
  \<^verbatim>\<open>medianCut\<close> chooses the channel in the order red, green, blue by the ranges
  (\<open>spec_channel\<close>), stable-sorts the set ascending by that channel, splits it at index
  \<open>length div 2\<close>, so that the lower half is never the longer one, recurses on both halves
  with the depth less one and concatenates the lower half's buckets before the upper half's.
  For a positive depth both recursive calls return.
\<close>

theorem medianCut_recursive_step:
  assumes "pixels \<noteq> []" and "depth \<noteq> 0" and "\<forall>p\<in>set pixels. valid_pixel p"
  shows "let channel = spec_channel pixels;
             ordered = sort_key (\<lambda>p. px p channel) pixels;
             mid = length pixels div 2
         in medianCut pixels depth =
              Option.bind (medianCut (take mid ordered) (depth - 1)) (\<lambda>lower.
              Option.bind (medianCut (drop mid ordered) (depth - 1)) (\<lambda>upper.
                Some (lower @ upper))) \<and>
            (0 < depth \<longrightarrow>
               (\<exists>lower upper. medianCut (take mid ordered) (depth - 1) = Some lower \<and>
                  medianCut (drop mid ordered) (depth - 1) = Some upper \<and>
                  medianCut pixels depth = Some (lower @ upper))) \<and>
            length (take mid ordered) = length pixels div 2 \<and>
            length (take mid ordered) \<le> length (drop mid ordered) \<and>
            sorted (map (\<lambda>p. px p channel) ordered) \<and>
            mset ordered = mset pixels \<and>
            (\<forall>k. filter (\<lambda>p. px p channel = k) ordered = filter (\<lambda>p. px p channel = k) pixels)"
proof -
  define channel where "channel = spec_channel pixels"
  define srt where "srt = sort_key (\<lambda>p. px p channel) pixels"
  define mid where "mid = length pixels div 2"
  have ch: "splitChannel pixels = channel"
    using splitChannel_spec[OF assms(1,3)] by (simp add: channel_def)
  have sp: "sortedPixels pixels = srt" by (simp add: sortedPixels_sort_key ch srt_def)
  have lo: "lowerHalf pixels = take mid srt" by (simp add: lowerHalf_def sp mid_def srt_def)
  have hi: "upperHalf pixels = drop mid srt" by (simp add: upperHalf_def sp mid_def srt_def)
  have eq: "medianCut pixels depth =
              Option.bind (medianCut (take mid srt) (depth - 1)) (\<lambda>lower.
              Option.bind (medianCut (drop mid srt) (depth - 1)) (\<lambda>upper.
                Some (lower @ upper)))"
    using medianCut_rec[OF assms(2,1)] by (simp only: lo hi)
  have ex: "\<exists>lower upper. medianCut (take mid srt) (depth - 1) = Some lower \<and>
                  medianCut (drop mid srt) (depth - 1) = Some upper \<and>
                  medianCut pixels depth = Some (lower @ upper)" if "0 < depth"
  proof -
    have d: "0 \<le> depth - 1" using that by simp
    from medianCut_returns[OF d] obtain l where l: "medianCut (take mid srt) (depth - 1) = Some l" by blast
    from medianCut_returns[OF d] obtain u where u: "medianCut (drop mid srt) (depth - 1) = Some u" by blast
    show ?thesis using l u eq by simp
  qed
  have len: "length (take mid srt) = mid" "length (take mid srt) \<le> length (drop mid srt)"
    by (simp_all add: srt_def mid_def)
  have so: "sorted (map (\<lambda>p. px p channel) srt)" by (simp add: srt_def)
  have ms: "mset srt = mset pixels" by (simp add: srt_def)
  have st: "\<forall>k. filter (\<lambda>p. px p channel = k) srt = filter (\<lambda>p. px p channel = k) pixels"
    by (simp add: srt_def sort_key_stable)
  show ?thesis
    unfolding Let_def channel_def[symmetric] srt_def[symmetric] mid_def[symmetric]
    using eq ex len so ms st by blast
qed

theorem medianCut_recursive_step_witness:
  "spec_channel [(10, 200, 30, 1 / 2), (10, 90, 250, 3 / 4), (10, 200, 30, 0)] = 2 \<and>
   medianCut [(10, 200, 30, 1 / 2), (10, 90, 250, 3 / 4), (10, 200, 30, 0)] 1 =
     Some [\<lparr>bucket_r = 10, bucket_g = 200, bucket_b = 30, saturation = 1 / 2, count = 1\<rparr>,
           \<lparr>bucket_r = 10, bucket_g = 145, bucket_b = 140, saturation = 3 / 8, count = 2\<rparr>]"
proof -
  let ?ps = "[(10, 200, 30, 1 / 2), (10, 90, 250, 3 / 4), (10, 200, 30, 0)] :: pixel list"
  have h1: "?ps \<noteq> []" by simp
  have h2: "(1::int) \<noteq> 0" by simp
  have h3: "\<forall>p\<in>set ?ps. valid_pixel p" by (simp add: valid_pixel_def)
  note step = medianCut_recursive_step[OF h1 h2 h3, unfolded Let_def step_example_channel step_example_sort]
  from step have "medianCut ?ps 1 =
      Option.bind (medianCut (take (length ?ps div 2) [(10, 200, 30, 1 / 2), (10, 200, 30, 0), (10, 90, 250, 3 / 4)]) (1 - 1))
        (\<lambda>lower. Option.bind (medianCut (drop (length ?ps div 2) [(10, 200, 30, 1 / 2), (10, 200, 30, 0), (10, 90, 250, 3 / 4)]) (1 - 1))
        (\<lambda>upper. Some (lower @ upper)))"
    by (rule conjunct1)
  hence "medianCut ?ps 1 =
     Some [\<lparr>bucket_r = 10, bucket_g = 200, bucket_b = 30, saturation = 1 / 2, count = 1\<rparr>,
           \<lparr>bucket_r = 10, bucket_g = 145, bucket_b = 140, saturation = 3 / 8, count = 2\<rparr>]"
    by (simp add: step_example_lower step_example_upper)
  thus ?thesis using step_example_channel by simp
qed

section \<open>Palette entries: channel range and hexadecimal text\<close>

lemma hexDigit_lowercase: "d < 16 \<Longrightarrow> hexDigit d \<in> set ''0123456789abcdef''"
  unfolding hexDigit_def by (rule nth_mem) simp

lemma padStart_hexPair:
  assumes "0 \<le> x" "x \<le> 255"
  shows "padStart (toString16 x) 2 CHR ''0'' = hexPair x"
proof (cases "nat x < 16")
  case True
  hence "hexDigits (nat x) = [hexDigit (nat x)]" by (simp add: hexDigits.simps)
  moreover have "hexDigit 0 = CHR ''0''" by (simp add: hexDigit_def)
  ultimately show ?thesis using assms True by (simp add: padStart_def toString16_def hexPair_def)
next
  case False
  have "nat x div 16 < 16" using assms by auto
  hence "hexDigits (nat x div 16) = [hexDigit (nat x div 16)]" by (simp add: hexDigits.simps)
  hence "hexDigits (nat x) = [hexDigit (nat x div 16), hexDigit (nat x mod 16)]"
    using False by (subst hexDigits.simps) simp
  thus ?thesis using assms by (simp add: padStart_def toString16_def hexPair_def)
qed

lemma rgbToHex_format:
  assumes "0 \<le> r \<and> r \<le> 255" "0 \<le> g \<and> g \<le> 255" "0 \<le> b \<and> b \<le> 255"
  shows "rgbToHex r g b = ''#'' @ hexPair r @ hexPair g @ hexPair b"
    and "matches_hex_colour (rgbToHex r g b)"
proof -
  show eq: "rgbToHex r g b = ''#'' @ hexPair r @ hexPair g @ hexPair b"
    using assms by (simp add: rgbToHex_def padStart_hexPair)
  have d: "nat x div 16 < 16" "nat x mod 16 < 16" if "0 \<le> x \<and> x \<le> 255" for x :: int
    using that by auto
  show "matches_hex_colour (rgbToHex r g b)"
    unfolding eq matches_hex_colour_def hexPair_def
    using d[OF assms(1)] d[OF assms(2)] d[OF assms(3)]
    by (simp add: hexDigit_lowercase del: set_simps)
qed

lemma hex_example_cut:
  "medianCut [(255, 0, 0, 1), (0, 0, 255, 1), (100, 200, 50, 3 / 4)] 1 =
     Some [\<lparr>bucket_r = 0, bucket_g = 0, bucket_b = 255, saturation = 1, count = 1\<rparr>,
           \<lparr>bucket_r = 178, bucket_g = 100, bucket_b = 25, saturation = 7 / 8, count = 2\<rparr>]"
  by code_simp

lemma hex_example_rgbToHex: "rgbToHex 178 100 25 = ''#b26419''"
  by code_simp

lemma hex_example_hex:
  "hex (paletteEntry \<lparr>bucket_r = 178, bucket_g = 100, bucket_b = 25, saturation = 7 / 8, count = 2\<rparr>)
     = ''#b26419''"
  by (simp add: paletteEntry_def Let_def hex_example_rgbToHex)

text \<open>
  Claim C7. For every bucket \<^verbatim>\<open>medianCut\<close> produces from pixels whose channels are integers
  from 0 to 255, the palette entry's \<open>r\<close>, \<open>g\<close>, \<open>b\<close> are integers from 0 to 255, and
  \<^verbatim>\<open>rgbToHex\<close> writes them as \<^verbatim>\<open>#\<close> followed by three two-digit, zero-padded, lowercase
  hexadecimal values, so the text matches \<^verbatim>\<open>#[0-9a-f]{6}\<close>.
\<close>

theorem palette_entry_rgb_hex:
  assumes "\<forall>p\<in>set pixels. valid_pixel p"
    and "medianCut pixels depth = Some buckets"
    and "c \<in> set buckets"
  shows "0 \<le> entry_r (paletteEntry c) \<and> entry_r (paletteEntry c) \<le> 255 \<and>
         0 \<le> entry_g (paletteEntry c) \<and> entry_g (paletteEntry c) \<le> 255 \<and>
         0 \<le> entry_b (paletteEntry c) \<and> entry_b (paletteEntry c) \<le> 255 \<and>
         hex (paletteEntry c) =
           rgbToHex (entry_r (paletteEntry c)) (entry_g (paletteEntry c)) (entry_b (paletteEntry c)) \<and>
         hex (paletteEntry c) =
           ''#'' @ hexPair (entry_r (paletteEntry c)) @ hexPair (entry_g (paletteEntry c))
                 @ hexPair (entry_b (paletteEntry c)) \<and>
         matches_hex_colour (hex (paletteEntry c))"
proof -
  from medianCut_parts[OF assms(2)] obtain parts where
    p: "mset (concat parts) = mset pixels" "[] \<notin> set parts" "buckets = map averageBucket parts"
    by blast
  from assms(3) p(3) obtain part where part: "part \<in> set parts" "c = averageBucket part" by auto
  have ne: "part \<noteq> []" using part(1) p(2) by auto
  have "\<forall>q\<in>set part. valid_pixel q" using part_subset[OF p(1) part(1)] assms(1) by auto
  from averageBucket_valid[OF ne this]
  have v: "0 \<le> bucket_r c \<and> bucket_r c \<le> 255" "0 \<le> bucket_g c \<and> bucket_g c \<le> 255"
          "0 \<le> bucket_b c \<and> bucket_b c \<le> 255"
    by (simp_all add: part(2))
  have e: "entry_r (paletteEntry c) = bucket_r c" "entry_g (paletteEntry c) = bucket_g c"
          "entry_b (paletteEntry c) = bucket_b c"
          "hex (paletteEntry c) = rgbToHex (bucket_r c) (bucket_g c) (bucket_b c)"
    by (simp_all add: paletteEntry_def Let_def)
  show ?thesis
    unfolding e using v rgbToHex_format[OF v] by simp
qed

theorem palette_entry_rgb_hex_witness:
  "hex (paletteEntry \<lparr>bucket_r = 178, bucket_g = 100, bucket_b = 25, saturation = 7 / 8, count = 2\<rparr>)
     = ''#b26419'' \<and>
   matches_hex_colour ''#b26419'' \<and>
   entry_r (paletteEntry \<lparr>bucket_r = 178, bucket_g = 100, bucket_b = 25, saturation = 7 / 8, count = 2\<rparr>) \<le> 255"
proof -
  let ?ps = "[(255, 0, 0, 1), (0, 0, 255, 1), (100, 200, 50, 3 / 4)] :: pixel list"
  let ?c = "\<lparr>bucket_r = 178, bucket_g = 100, bucket_b = 25, saturation = 7 / 8, count = 2\<rparr>"
  have h1: "\<forall>p\<in>set ?ps. valid_pixel p" by (simp add: valid_pixel_def)
  have h3: "?c \<in> set [\<lparr>bucket_r = 0, bucket_g = 0, bucket_b = 255, saturation = 1, count = 1\<rparr>, ?c]"
    by simp
  from palette_entry_rgb_hex[OF h1 hex_example_cut h3]
  have "matches_hex_colour (hex (paletteEntry ?c))" "entry_r (paletteEntry ?c) \<le> 255" by blast+
  thus ?thesis by (simp add: hex_example_hex)
qed

section \<open>Ranking\<close>

lemma score_comparator: "fsub (score b) (score a) \<le> 0 \<longleftrightarrow> - score a \<le> - score b"
  by (simp add: fsub_def fl_le_zero_iff)

lemma rank_sort_key:
  "array_sort (\<lambda>a b. fsub (score b) (score a)) colors = sort_key (\<lambda>c. - score c) colors"
  by (rule array_sort_sort_key) (rule score_comparator)

lemma rank_example_scores:
  "score \<lparr>bucket_r = 90, bucket_g = 90, bucket_b = 90, saturation = 0, count = 3\<rparr> = 3"
  "score \<lparr>bucket_r = 200, bucket_g = 150, bucket_b = 180, saturation = 1 / 4, count = 2\<rparr> = 3"
  "score \<lparr>bucket_r = 0, bucket_g = 0, bucket_b = 200, saturation = 1, count = 2\<rparr> = 6"
  by code_simp+

lemma rank_example_sort:
  "sort_key (\<lambda>c. - score c)
     [\<lparr>bucket_r = 90, bucket_g = 90, bucket_b = 90, saturation = 0, count = 3\<rparr>,
      \<lparr>bucket_r = 200, bucket_g = 150, bucket_b = 180, saturation = 1 / 4, count = 2\<rparr>,
      \<lparr>bucket_r = 0, bucket_g = 0, bucket_b = 200, saturation = 1, count = 2\<rparr>]
   = [\<lparr>bucket_r = 0, bucket_g = 0, bucket_b = 200, saturation = 1, count = 2\<rparr>,
      \<lparr>bucket_r = 90, bucket_g = 90, bucket_b = 90, saturation = 0, count = 3\<rparr>,
      \<lparr>bucket_r = 200, bucket_g = 150, bucket_b = 180, saturation = 1 / 4, count = 2\<rparr>]"
  by (simp add: rank_example_scores)

text \<open>
  Claim C3. The ranking stage scores a bucket as \<open>count \<times> (1 + saturation \<times> 2)\<close>, in the
  source's double arithmetic, sorts the buckets by descending score with a stable sort (buckets
  of equal score keep their order), and keeps the first \<open>colorCount\<close> of them; the result is
  never longer than the requested count.
\<close>

theorem rankColors_ranking:
  "let ranked = sort_key (\<lambda>c. - score c) colors
   in rankColors colors colorCount = take colorCount ranked \<and>
      length (rankColors colors colorCount) = min colorCount (length colors) \<and>
      length (rankColors colors colorCount) \<le> colorCount \<and>
      sorted_wrt (\<lambda>x y. score x \<ge> score y) ranked \<and>
      mset ranked = mset colors \<and>
      (\<forall>k. filter (\<lambda>c. score c = k) ranked = filter (\<lambda>c. score c = k) colors) \<and>
      (\<forall>c. score c = fmul (of_nat (count c)) (fadd 1 (fmul (saturation c) 2)))"
proof -
  define ranked where "ranked = sort_key (\<lambda>c. - score c) colors"
  have r: "rankColors colors colorCount = take colorCount ranked"
    by (simp add: rankColors_def rank_sort_key ranked_def)
  have len: "length (rankColors colors colorCount) = min colorCount (length colors)"
    by (simp add: r ranked_def)
  have "sorted (map (\<lambda>c. - score c) ranked)" by (simp add: ranked_def)
  hence so: "sorted_wrt (\<lambda>x y. score x \<ge> score y) ranked"
    by (simp add: sorted_wrt_map)
  have ms: "mset ranked = mset colors" by (simp add: ranked_def)
  have st: "filter (\<lambda>c. score c = k) ranked = filter (\<lambda>c. score c = k) colors" for k
    using sort_key_stable[of "\<lambda>c. - score c" "- k" colors] by (simp add: ranked_def)
  show ?thesis
    unfolding Let_def ranked_def[symmetric]
    using r len so ms st by (simp add: score_def)
qed

theorem rankColors_ranking_witness:
  "rankColors
     [\<lparr>bucket_r = 90, bucket_g = 90, bucket_b = 90, saturation = 0, count = 3\<rparr>,
      \<lparr>bucket_r = 200, bucket_g = 150, bucket_b = 180, saturation = 1 / 4, count = 2\<rparr>,
      \<lparr>bucket_r = 0, bucket_g = 0, bucket_b = 200, saturation = 1, count = 2\<rparr>] 2
   = [\<lparr>bucket_r = 0, bucket_g = 0, bucket_b = 200, saturation = 1, count = 2\<rparr>,
      \<lparr>bucket_r = 90, bucket_g = 90, bucket_b = 90, saturation = 0, count = 3\<rparr>]"
  using rankColors_ranking[of "[\<lparr>bucket_r = 90, bucket_g = 90, bucket_b = 90, saturation = 0, count = 3\<rparr>,
      \<lparr>bucket_r = 200, bucket_g = 150, bucket_b = 180, saturation = 1 / 4, count = 2\<rparr>,
      \<lparr>bucket_r = 0, bucket_g = 0, bucket_b = 200, saturation = 1, count = 2\<rparr>]" 2]
  unfolding Let_def rank_example_sort
  by simp

section \<open>The pixel sampler\<close>

lemma fl_numeral_consts:
  "fl 5 = 5" "fl 250 = 250" "fl (14 / 3) < 5" "250 < fl (751 / 3)"
  by code_simp+

lemma brightness_low:
  "fdiv (of_int s) 3 < 5 \<longleftrightarrow> (of_int s :: rat) / 3 < 5"
proof
  assume a: "fdiv (of_int s) 3 < 5"
  show "(of_int s :: rat) / 3 < 5"
  proof (rule ccontr)
    assume "\<not> (of_int s :: rat) / 3 < 5"
    hence "fl 5 \<le> fl (of_int s / 3)" by (intro fl_mono) simp
    thus False using a by (simp add: fdiv_def fl_numeral_consts)
  qed
next
  assume "(of_int s :: rat) / 3 < 5"
  hence "s < 15" by simp
  hence "s \<le> 14" by simp
  hence "(of_int s :: rat) \<le> 14" by (metis of_int_le_iff of_int_numeral)
  hence "fl (of_int s / 3) \<le> fl (14 / 3)" by (intro fl_mono) simp
  thus "fdiv (of_int s) 3 < 5" using fl_numeral_consts(3) by (simp add: fdiv_def)
qed

lemma brightness_high:
  "fdiv (of_int s) 3 > 250 \<longleftrightarrow> (of_int s :: rat) / 3 > 250"
proof
  assume a: "fdiv (of_int s) 3 > 250"
  show "(of_int s :: rat) / 3 > 250"
  proof (rule ccontr)
    assume "\<not> (of_int s :: rat) / 3 > 250"
    hence "fl (of_int s / 3) \<le> fl 250" by (intro fl_mono) simp
    thus False using a by (simp add: fdiv_def fl_numeral_consts)
  qed
next
  assume "(of_int s :: rat) / 3 > 250"
  hence "750 < s" by simp
  hence "751 \<le> s" by simp
  hence "(751 :: rat) \<le> of_int s" by (metis of_int_le_iff of_int_numeral)
  hence "fl (751 / 3) \<le> fl (of_int s / 3)" by (intro fl_mono) simp
  thus "fdiv (of_int s) 3 > 250" using fl_numeral_consts(4) by (simp add: fdiv_def)
qed

lemma getSaturation_spec: "getSaturation r g b = fl (spec_saturation r g b)"
  by (simp add: getSaturation_def spec_saturation_def Let_def fdiv_def)

lemma spec_saturation_unit:
  assumes "0 \<le> r" "0 \<le> g" "0 \<le> b"
  shows "0 \<le> spec_saturation r g b \<and> spec_saturation r g b \<le> 1"
proof -
  have "0 \<le> min r (min g b)" "min r (min g b) \<le> max r (max g b)" using assms by auto
  thus ?thesis by (auto simp: spec_saturation_def divide_le_eq_1 zero_le_divide_iff)
qed

lemma getPixels_Cons:
  "getPixels (q # rest) = (if spec_kept q then spec_sample q # getPixels rest else getPixels rest)"
proof -
  obtain r g b a where q: "q = (r, g, b, a)" by (cases q) auto
  define s where "s = uint r + uint g + uint b"
  define br where "br = fdiv (of_int s) 3"
  define px where "px = (uint r, uint g, uint b, getSaturation (uint r) (uint g) (uint b))"
  have step: "getPixels (q # rest) =
      (if a < 128 then getPixels rest
       else if br < 5 \<or> br > 250 then getPixels rest else px # getPixels rest)"
    unfolding q br_def s_def px_def by (simp only: getPixels.simps Let_def)
  have a: "a < 128 \<longleftrightarrow> \<not> 128 \<le> uint a" by (simp add: word_less_def not_le)
  have lo: "br < 5 \<longleftrightarrow> \<not> 5 \<le> (of_int s :: rat) / 3"
    unfolding br_def by (simp only: brightness_low not_le)
  have hi: "br > 250 \<longleftrightarrow> \<not> (of_int s :: rat) / 3 \<le> 250"
    unfolding br_def by (simp only: brightness_high not_le)
  have kept: "spec_kept q \<longleftrightarrow> 128 \<le> uint a \<and> 5 \<le> (of_int s :: rat) / 3 \<and> (of_int s :: rat) / 3 \<le> 250"
    unfolding q s_def by (simp only: spec_kept_def spec_brightness_def prod.case)
  have sample: "spec_sample q = px"
    unfolding q px_def by (simp only: spec_sample_def prod.case getSaturation_spec)
  show ?thesis
    unfolding step a lo hi kept sample by (simp only: de_Morgan_conj not_not if_splits) auto
qed

lemma getPixels_example:
  "getPixels [(255, 0, 0, 128), (255, 0, 0, 127), (5, 5, 5, 255), (5, 5, 4, 255),
              (250, 250, 250, 255), (250, 251, 250, 255), (0, 0, 0, 255), (200, 100, 50, 200)]
   = [(255, 0, 0, 1), (5, 5, 5, 0), (250, 250, 250, 0), (200, 100, 50, 3 / 4)]"
  by code_simp

text \<open>
  Claim C5. The sampler keeps a pixel if and only if its alpha is at least 128 and its
  brightness \<open>(r + g + b) / 3\<close> is between 5 and 250, both bounds included; the kept pixels
  stay in their order, and each carries the saturation \<open>(max - min) / max\<close>, or 0 when the
  maximum is 0, as a double. The sampled channels are integers from 0 to 255 and the
  saturation lies between 0 and 1.
\<close>

theorem getPixels_filter:
  "getPixels data = map spec_sample (filter spec_kept data) \<and>
   (\<forall>p\<in>set (getPixels data). valid_pixel p \<and> 0 \<le> px_sat p \<and> px_sat p \<le> 1)"
proof
  show eq: "getPixels data = map spec_sample (filter spec_kept data)"
    by (induction data) (simp_all only: getPixels.simps(1) getPixels_Cons filter.simps list.map if_distrib[of "map spec_sample"] split: if_splits)
  show "\<forall>p\<in>set (getPixels data). valid_pixel p \<and> 0 \<le> px_sat p \<and> px_sat p \<le> 1"
  proof
    fix p assume "p \<in> set (getPixels data)"
    then obtain q where "p = spec_sample q" unfolding eq by auto
    moreover obtain r g b a where "q = (r, g, b, a)" by (cases q) auto
    moreover have "uint x \<le> 255" for x :: byte using uint_bounded[of x] by simp
    ultimately show "valid_pixel p \<and> 0 \<le> px_sat p \<and> px_sat p \<le> 1"
      using spec_saturation_unit[of "uint r" "uint g" "uint b"]
      by (simp add: spec_sample_def valid_pixel_def fl_unit)
  qed
qed

theorem getPixels_filter_witness:
  "map spec_sample (filter spec_kept
      [(255, 0, 0, 128), (255, 0, 0, 127), (5, 5, 5, 255), (5, 5, 4, 255),
       (250, 250, 250, 255), (250, 251, 250, 255), (0, 0, 0, 255), (200, 100, 50, 200)])
   = [(255, 0, 0, 1), (5, 5, 5, 0), (250, 250, 250, 0), (200, 100, 50, 3 / 4)] \<and>
   valid_pixel (200, 100, 50, 3 / 4)"
  using getPixels_filter[of "[(255, 0, 0, 128), (255, 0, 0, 127), (5, 5, 5, 255), (5, 5, 4, 255),
       (250, 250, 250, 255), (250, 251, 250, 255), (0, 0, 0, 255), (200, 100, 50, 200)]"]
  unfolding getPixels_example by simp

section \<open>The pipeline: an error, a palette, or neither\<close>

lemma length_rankColors: "length (rankColors colors n) = min n (length colors)"
  by (simp add: rankColors_def rank_sort_key)

lemma scaledSize_small: "w \<le> 250 \<Longrightarrow> h \<le> 250 \<Longrightarrow> scaledSize w h = (w, h)"
  by (simp add: scaledSize_def)

lemma scaledSize_wide_line: "scaledSize 1000 1 = (250, 0)"
proof -
  have q: "fdiv (of_nat (1 * 250)) (of_nat 1000) = fl (1 / 4)" by (simp add: fdiv_def)
  have "0 \<le> fl (1 / 4)" "fl (1 / 4) \<le> (1 + 1 / 2 ^ 53) * (1 / 4)"
    using fl_error[of "1 / 4"] by simp_all
  hence "0 \<le> fl (1 / 4) + 1 / 2" "fl (1 / 4) + 1 / 2 < 1" by simp_all
  hence "Math_round (fl (1 / 4)) = 0" unfolding Math_round_def by (simp add: floor_eq_iff)
  thus ?thesis using q by (simp add: scaledSize_def)
qed

lemma scaledSize_wide_line_Suc: "scaledSize 1000 (Suc 0) = (250, 0)"
  using scaledSize_wide_line by simp

lemma pipeline_example_pixels:
  "getPixels [(255, 0, 0, 255), (0, 0, 255, 255)] = [(255, 0, 0, 1), (0, 0, 255, 1)]"
  "getPixels [(255, 0, 0, 0), (255, 255, 255, 255)] = []"
  by code_simp+

text \<open>
  Claim C6 says that for every input the pipeline ends in an error or in a full palette. An
  image 1000 wide and 1 high loads; its canvas height is \<^verbatim>\<open>Math.round(250 / 1000)\<close>, which is
  0, so \<^verbatim>\<open>getImageData\<close> throws inside the load handler and the promise is neither rejected
  nor resolved, whatever the image shows and whatever count is requested.
\<close>

theorem extractColors_never_settles:
  "extractColors (Loaded 1000 1 canvas) colorCountArg = None"
  by (simp add: extractColors_def scaledSize_wide_line_Suc)

text \<open>
  The other paths do what the claim says. When both canvas dimensions are positive and the
  requested count is not 0, the promise is rejected with \<open>NoValidPixels\<close> exactly when the
  filtered pixel list is empty; otherwise it resolves with the ranked averages of non-empty
  parts that together are a rearrangement of the filtered pixels, \<open>min n (2 ^ depth)\<close> parts
  for \<open>n\<close> pixels, cut to the requested count. A failed load is rejected.
\<close>

lemma extractColors_settled:
  assumes "colorCountArg \<noteq> Some 0"
    and "scaledSize imgWidth imgHeight = (width, height)" and "width \<noteq> 0" and "height \<noteq> 0"
  shows "(extractColors (Loaded imgWidth imgHeight canvas) colorCountArg = Some (Inl NoValidPixels)
            \<longleftrightarrow> getPixels (canvas width height) = []) \<and>
         (getPixels (canvas width height) \<noteq> [] \<longrightarrow>
            (\<exists>parts. mset (concat parts) = mset (getPixels (canvas width height)) \<and>
               [] \<notin> set parts \<and>
               length parts = min (length (getPixels (canvas width height)))
                                 (2 ^ (ceillog2 (requestedCount colorCountArg) + 2)) \<and>
               rankColors (map averageBucket parts) (requestedCount colorCountArg) \<noteq> [] \<and>
               length (rankColors (map averageBucket parts) (requestedCount colorCountArg))
                 \<le> requestedCount colorCountArg \<and>
               extractColors (Loaded imgWidth imgHeight canvas) colorCountArg =
                 Some (Inr (map paletteEntry
                   (rankColors (map averageBucket parts) (requestedCount colorCountArg)))))) \<and>
         extractColors LoadError colorCountArg = Some (Inl FailedToLoad)"
proof -
  define n where "n = requestedCount colorCountArg"
  have n: "0 < n" using assms(1) by (cases colorCountArg) (auto simp: n_def requestedCount_def)
  define depth where "depth = int (ceillog2 n) + 2"
  define pixels where "pixels = getPixels (canvas width height)"
  have d: "0 \<le> depth" by (simp add: depth_def)
  have nd: "nat depth = ceillog2 n + 2" by (simp add: depth_def)
  have ex: "extractColors (Loaded imgWidth imgHeight canvas) colorCountArg =
      (if length pixels = 0 then Some (Inl NoValidPixels)
       else Option.bind (medianCut pixels depth) (\<lambda>colors.
              Some (Inr (map paletteEntry (rankColors colors n)))))"
    using n assms(2,3,4)
    by (simp add: extractColors_def Let_def n_def depth_def pixels_def requestedCount_def)
  have load: "extractColors LoadError colorCountArg = Some (Inl FailedToLoad)"
    by (simp add: extractColors_def)
  from medianCut_returns[OF d] obtain colors where
    mc: "medianCut pixels depth = Some colors" by blast
  from medianCut_parts[OF mc] obtain parts where
    p: "mset (concat parts) = mset pixels" "[] \<notin> set parts" "colors = map averageBucket parts"
    by blast
  have len: "length parts = min (length pixels) (2 ^ (ceillog2 n + 2))"
    using medianCut_length[OF d mc] by (simp add: p(3) nd)
  have rk: "length (rankColors colors n) = min n (length colors)"
    by (rule length_rankColors)
  have rne: "rankColors colors n \<noteq> []" if "pixels \<noteq> []"
  proof -
    have "0 < length colors" using that len by (simp add: p(3))
    hence "0 < length (rankColors colors n)" using rk n by simp
    thus ?thesis by simp
  qed
  have iff: "extractColors (Loaded imgWidth imgHeight canvas) colorCountArg = Some (Inl NoValidPixels)
            \<longleftrightarrow> pixels = []"
    by (simp add: ex mc)
  have pal: "\<exists>parts. mset (concat parts) = mset pixels \<and> [] \<notin> set parts \<and>
               length parts = min (length pixels) (2 ^ (ceillog2 n + 2)) \<and>
               rankColors (map averageBucket parts) n \<noteq> [] \<and>
               length (rankColors (map averageBucket parts) n) \<le> n \<and>
               extractColors (Loaded imgWidth imgHeight canvas) colorCountArg =
                 Some (Inr (map paletteEntry (rankColors (map averageBucket parts) n)))"
    if "pixels \<noteq> []"
    using mc p len rne[OF that] rk that by (intro exI[of _ parts]) (simp add: ex)
  show ?thesis
    unfolding n_def[symmetric] pixels_def[symmetric]
    using iff pal load by blast
qed


section \<open>The default colour count\<close>

lemma default_depth: "int (ceillog2 6) + 2 = 5"
  by code_simp

text \<open>
  Claim C10. A call of \<^verbatim>\<open>extractColors\<close> without the \<^verbatim>\<open>colorCount\<close> argument behaves as
  the call with \<^verbatim>\<open>colorCount = 6\<close>: on an image with a valid pixel it cuts to depth 5 and
  resolves with the first 6 ranked buckets.
\<close>

theorem extractColors_default_count:
  "extractColors img None = extractColors img (Some 6) \<and>
   (\<forall>imgWidth imgHeight canvas width height.
      scaledSize imgWidth imgHeight = (width, height) \<longrightarrow> width \<noteq> 0 \<longrightarrow> height \<noteq> 0 \<longrightarrow>
      getPixels (canvas width height) \<noteq> [] \<longrightarrow>
      (\<exists>colors. medianCut (getPixels (canvas width height)) 5 = Some colors \<and>
         extractColors (Loaded imgWidth imgHeight canvas) None
           = Some (Inr (map paletteEntry (rankColors colors 6)))))"
proof (intro conjI allI impI)
  show "extractColors img None = extractColors img (Some 6)"
    by (simp add: extractColors_def)
next
  fix imgWidth imgHeight width height :: nat and canvas :: "nat \<Rightarrow> nat \<Rightarrow> rgba list"
  assume sz: "scaledSize imgWidth imgHeight = (width, height)" "width \<noteq> 0" "height \<noteq> 0"
    and ne: "getPixels (canvas width height) \<noteq> []"
  from medianCut_returns[of 5 "getPixels (canvas width height)"] obtain colors where
    mc: "medianCut (getPixels (canvas width height)) 5 = Some colors" by auto
  have "extractColors (Loaded imgWidth imgHeight canvas) None
          = Some (Inr (map paletteEntry (rankColors colors 6)))"
    using sz ne mc by (simp add: extractColors_def Let_def default_depth)
  thus "\<exists>colors. medianCut (getPixels (canvas width height)) 5 = Some colors \<and>
         extractColors (Loaded imgWidth imgHeight canvas) None
           = Some (Inr (map paletteEntry (rankColors colors 6)))"
    using mc by blast
qed

theorem extractColors_default_count_witness:
  "extractColors (Loaded 2 1 (\<lambda>w h. [(255, 0, 0, 255), (0, 0, 255, 255)])) None =
     extractColors (Loaded 2 1 (\<lambda>w h. [(255, 0, 0, 255), (0, 0, 255, 255)])) (Some 6) \<and>
   (\<exists>colors. medianCut [(255, 0, 0, 1), (0, 0, 255, 1)] 5 = Some colors \<and>
      extractColors (Loaded 2 1 (\<lambda>w h. [(255, 0, 0, 255), (0, 0, 255, 255)])) None
        = Some (Inr (map paletteEntry (rankColors colors 6))))"
proof -
  let ?canvas = "\<lambda>(w::nat) (h::nat). [(255, 0, 0, 255), (0, 0, 255, 255)] :: rgba list"
  note d = extractColors_default_count[of "Loaded 2 1 ?canvas"]
  have sz: "scaledSize 2 1 = (2, 1)" by (simp add: scaledSize_small)
  have w: "(2::nat) \<noteq> 0" and h: "(1::nat) \<noteq> 0" by simp_all
  have ne: "getPixels (?canvas 2 1) \<noteq> []"
    unfolding pipeline_example_pixels(1) by simp
  note run = d[THEN conjunct2, rule_format,
      where imgWidth = 2 and imgHeight = 1 and canvas = ?canvas and width = 2 and height = 1,
      OF sz w h ne]
  show ?thesis using d run unfolding pipeline_example_pixels(1) by blast
qed


section \<open>RGB to HSL\<close>

lemma channel_unit:
  assumes "0 \<le> c" "c \<le> 255"
  shows "0 \<le> fdiv (of_int c) 255 \<and> fdiv (of_int c) 255 \<le> 1"
proof -
  have "(of_int c :: rat) \<le> 255" using assms(2) by (metis of_int_le_iff of_int_numeral)
  hence "(0::rat) \<le> of_int c / 255" "(of_int c :: rat) / 255 \<le> 1" using assms(1) by simp_all
  thus ?thesis unfolding fdiv_def by (rule fl_unit)
qed

lemma scaled_round_bounds:
  assumes "0 \<le> x" "x \<le> 1" "0 \<le> k" "k < 2 ^ 53"
  shows "0 \<le> Math_round (fmul x (of_int k)) \<and> Math_round (fmul x (of_int k)) \<le> k"
proof -
  have "(0::rat) \<le> of_int k" using assms(3) by simp
  hence "of_int 0 \<le> x * of_int k" "x * of_int k \<le> of_int k"
    using assms(1,2) by (simp_all add: mult_left_le_one_le)
  hence "of_int 0 \<le> fl (x * of_int k) \<and> fl (x * of_int k) \<le> of_int k"
    using assms(3,4) by (intro fl_between) simp_all
  thus ?thesis unfolding fmul_def by (intro Math_round_bounds) simp_all
qed

lemma lightness_unit:
  assumes "0 \<le> mn" "mn \<le> mx" "mx \<le> 1"
  shows "0 \<le> fdiv (fadd mx mn) 2 \<and> fdiv (fadd mx mn) 2 \<le> 1"
proof -
  have "of_int 0 \<le> mx + mn" "mx + mn \<le> of_int 2" using assms by simp_all
  hence "of_int 0 \<le> fl (mx + mn) \<and> fl (mx + mn) \<le> of_int 2" by (intro fl_between) simp_all
  hence "0 \<le> fl (mx + mn) / 2" "fl (mx + mn) / 2 \<le> 1" by simp_all
  thus ?thesis unfolding fdiv_def fadd_def by (rule fl_unit)
qed

lemma saturation_low_unit:
  assumes "0 \<le> mn" "mn < mx"
  shows "0 \<le> fdiv (fsub mx mn) (fadd mx mn) \<and> fdiv (fsub mx mn) (fadd mx mn) \<le> 1"
proof -
  have d: "0 < fl (mx - mn)" using assms by (intro fl_pos) simp
  have "fl (mx - mn) \<le> fl (mx + mn)" using assms by (intro fl_mono) simp
  hence "0 \<le> fl (mx - mn) / fl (mx + mn)" "fl (mx - mn) / fl (mx + mn) \<le> 1"
    using d by (simp_all add: divide_le_eq_1)
  thus ?thesis unfolding fdiv_def fadd_def fsub_def by (rule fl_unit)
qed

lemma saturation_high_unit:
  assumes "0 \<le> mn" "mn < mx" "mx \<le> 1"
  shows "0 \<le> fdiv (fsub mx mn) (fsub (fsub 2 mx) mn) \<and>
         fdiv (fsub mx mn) (fsub (fsub 2 mx) mn) \<le> 1"
proof -
  have d: "0 < fl (mx - mn)" using assms by (intro fl_pos) simp
  have "of_int 1 \<le> fl (2 - mx)" using assms(3) by (intro fl_ge_int) simp_all
  hence "mx - mn \<le> fl (2 - mx) - mn" using assms(3) by simp
  hence "fl (mx - mn) \<le> fl (fl (2 - mx) - mn)" by (rule fl_mono)
  hence "0 \<le> fl (mx - mn) / fl (fl (2 - mx) - mn)" "fl (mx - mn) / fl (fl (2 - mx) - mn) \<le> 1"
    using d by (simp_all add: divide_le_eq_1)
  thus ?thesis unfolding fdiv_def fsub_def by (rule fl_unit)
qed

lemma hue_quotient:
  assumes "mn \<le> x" "x \<le> mx" "mn \<le> y" "y \<le> mx" "mn < mx"
  shows "- 1 \<le> fdiv (fsub x y) (fsub mx mn) \<and> fdiv (fsub x y) (fsub mx mn) \<le> 1"
    and "x \<le> y \<Longrightarrow> fdiv (fsub x y) (fsub mx mn) \<le> 0"
    and "y \<le> x \<Longrightarrow> 0 \<le> fdiv (fsub x y) (fsub mx mn)"
proof -
  define d where "d = fl (mx - mn)"
  have d: "0 < d" unfolding d_def using assms by (intro fl_pos) simp
  have "fl (x - y) \<le> d" unfolding d_def using assms by (intro fl_mono) simp
  moreover have "fl (- (mx - mn)) \<le> fl (x - y)" using assms by (intro fl_mono) simp
  hence "- d \<le> fl (x - y)" by (simp only: fl_minus d_def)
  ultimately have "of_int (- 1) \<le> fl (x - y) / d" "fl (x - y) / d \<le> of_int 1"
    using d by (simp_all add: pos_le_divide_eq pos_divide_le_eq)
  hence "of_int (- 1) \<le> fl (fl (x - y) / d) \<and> fl (fl (x - y) / d) \<le> of_int 1"
    by (intro fl_between) simp_all
  thus "- 1 \<le> fdiv (fsub x y) (fsub mx mn) \<and> fdiv (fsub x y) (fsub mx mn) \<le> 1"
    by (simp add: fdiv_def fsub_def d_def)
  {
    assume "x \<le> y"
    hence "fl (x - y) \<le> fl 0" by (intro fl_mono) simp
    hence "fl (x - y) / d \<le> 0" using d by (simp add: divide_le_0_iff)
    hence "fl (fl (x - y) / d) \<le> fl 0" by (rule fl_mono)
    thus "fdiv (fsub x y) (fsub mx mn) \<le> 0" by (simp add: fdiv_def fsub_def d_def)
  }
  {
    assume "y \<le> x"
    hence "fl 0 \<le> fl (x - y)" by (intro fl_mono) simp
    hence "0 \<le> fl (x - y) / d" using d by simp
    hence "fl 0 \<le> fl (fl (x - y) / d)" by (rule fl_mono)
    thus "0 \<le> fdiv (fsub x y) (fsub mx mn)" by (simp add: fdiv_def fsub_def d_def)
  }
qed

lemma hue_unit:
  assumes "of_int a \<le> q" "q \<le> of_int b" "0 \<le> a + c" "b + c \<le> 6"
  shows "0 \<le> fdiv (fadd q (of_int c)) 6 \<and> fdiv (fadd q (of_int c)) 6 \<le> 1"
proof -
  have "of_int (a + c) \<le> q + of_int c" "q + of_int c \<le> of_int (b + c)" using assms(1,2) by simp_all
  moreover have "\<bar>a + c\<bar> < 2 ^ 53" "\<bar>b + c\<bar> < 2 ^ 53"
  proof -
    have "a \<le> b" using assms(1,2) by (metis of_int_le_iff order_trans)
    thus "\<bar>a + c\<bar> < 2 ^ 53" "\<bar>b + c\<bar> < 2 ^ 53" using assms(3,4) by simp_all
  qed
  ultimately have "of_int (a + c) \<le> fl (q + of_int c) \<and> fl (q + of_int c) \<le> of_int (b + c)"
    by (intro fl_between)
  moreover have "(0::rat) \<le> of_int (a + c)" "(of_int (b + c) :: rat) \<le> 6"
    using assms(3,4) by (simp, metis of_int_le_iff of_int_numeral)
  ultimately have "0 \<le> fl (q + of_int c) / 6" "fl (q + of_int c) / 6 \<le> 1" by simp_all
  thus ?thesis unfolding fdiv_def fadd_def by (rule fl_unit)
qed


lemma rgbToHsl_unfold:
  "rgbToHsl r0 g0 b0 =
     (let r = fdiv (of_int r0) 255; g = fdiv (of_int g0) 255; b = fdiv (of_int b0) 255;
          mx = max r (max g b); mn = min r (min g b);
          l = fdiv (fadd mx mn) 2;
          d = fsub mx mn;
          s = (if mx = mn then 0
               else if l > 1 / 2 then fdiv d (fsub (fsub 2 mx) mn) else fdiv d (fadd mx mn));
          h = (if mx = mn then 0
               else if mx = r then fdiv (fadd (fdiv (fsub g b) d) (if g < b then 6 else 0)) 6
               else if mx = g then fdiv (fadd (fdiv (fsub b r) d) 2) 6
               else fdiv (fadd (fdiv (fsub r g) d) 4) 6)
      in \<lparr>hsl_h = Math_round (fmul h 360), hsl_s = Math_round (fmul s 100),
          hsl_l = Math_round (fmul l 100)\<rparr>)"
  by (simp add: rgbToHsl_def Let_def)

text \<open>
  The error analysis. Every operation of \<^verbatim>\<open>rgbToHsl\<close> rounds once, so the computed scaled value
  differs from the exact one by a small multiple of the unit roundoff; the exact value is a
  fraction whose denominator is at most 255, so it is never so close to a half-integer that
  the rounding of the computed value could pick an integer that is not nearest to it.
\<close>

lemma fl_abs_error:
  assumes "\<bar>x\<bar> \<le> B"
  shows "\<bar>fl x - x\<bar> \<le> B / 2 ^ 53"
proof -
  have pos: "\<bar>fl y - y\<bar> \<le> y / 2 ^ 53" if "0 \<le> y" for y
  proof -
    have e: "(1 - 1 / 2 ^ 53) * y = y - y / 2 ^ 53" "(1 + 1 / 2 ^ 53) * y = y + y / 2 ^ 53"
      by (simp_all only: left_diff_distrib distrib_right mult_1 times_divide_eq_left)
    show ?thesis using fl_error[OF that] unfolding e by (simp only: abs_le_iff) linarith
  qed
  have "\<bar>fl x - x\<bar> \<le> \<bar>x\<bar> / 2 ^ 53"
  proof (cases "0 \<le> x")
    case True
    thus ?thesis using pos[of x] by simp
  next
    case False
    hence "\<bar>fl (- x) - (- x)\<bar> \<le> (- x) / 2 ^ 53" by (intro pos) simp
    hence "\<bar>- (fl x - x)\<bar> \<le> (- x) / 2 ^ 53" by (simp only: fl_minus minus_diff_eq diff_minus_eq_add)
    thus ?thesis using False by simp
  qed
  also have "\<dots> \<le> B / 2 ^ 53" using assms by (simp add: divide_right_mono)
  finally show ?thesis .
qed

lemma fl_close:
  assumes "\<bar>x - X\<bar> \<le> a" "\<bar>x\<bar> \<le> B"
  shows "\<bar>fl x - X\<bar> \<le> a + B / 2 ^ 53"
  using fl_abs_error[OF assms(2)] assms(1) by linarith

lemma div_close:
  fixes n a N A al c :: rat
  assumes n: "\<bar>n - N\<bar> \<le> al" and a: "\<bar>a - A\<bar> \<le> al" and N: "\<bar>N\<bar> \<le> A"
    and c: "c \<le> A" "0 < c" "2 * al \<le> c"
  shows "\<bar>n / a - N / A\<bar> \<le> 4 * al / c"
proof -
  have al: "0 \<le> al" using n by linarith
  have A: "0 < A" using c by linarith
  have a2: "A / 2 \<le> a" using a c by linarith
  have apos: "0 < a" using a2 A by linarith
  have "n * A - N * a = (n - N) * A - N * (a - A)" by (simp add: algebra_simps)
  hence "\<bar>n * A - N * a\<bar> \<le> \<bar>(n - N) * A\<bar> + \<bar>N * (a - A)\<bar>"
    by (simp only: abs_triangle_ineq4)
  also have "\<bar>(n - N) * A\<bar> \<le> al * A"
    using n A by (simp only: abs_mult) (simp add: mult_right_mono)
  also have "\<bar>N * (a - A)\<bar> \<le> A * al"
    using N a A al by (simp only: abs_mult) (intro mult_mono; simp)
  finally have num: "\<bar>n * A - N * a\<bar> \<le> 2 * al * A" by (simp add: algebra_simps)
  have "n / a - N / A = (n * A - N * a) / (a * A)"
    using apos A by (simp add: field_simps)
  hence "\<bar>n / a - N / A\<bar> = \<bar>n * A - N * a\<bar> / (a * A)"
    using apos A by (simp add: abs_mult)
  also have "\<dots> \<le> 2 * al * A / (a * A)"
    using num apos A by (intro divide_right_mono) simp_all
  also have "\<dots> = 2 * al / a" using A by simp
  also have "\<dots> \<le> 2 * al / (A / 2)"
    using a2 A al by (intro divide_left_mono) simp_all
  also have "\<dots> = 4 * al / A" by simp
  also have "\<dots> \<le> 4 * al / c" using c al by (intro divide_left_mono) simp_all
  finally show ?thesis .
qed

lemma round_nearest:
  fixes x H :: rat and k m :: int
  assumes close: "\<bar>x - H\<bar> < 1 / (2 * of_int k)" and k: "0 < k" and int: "of_int k * H = of_int m"
  shows "\<bar>of_int (Math_round x) - H\<bar> \<le> 1 / 2"
proof -
  define n where "n = Math_round x"
  define z where "z = 2 * k * n - 2 * m"
  have kk: "(0::rat) < of_int k" using k by simp
  have n: "of_int n \<le> x + 1 / 2" "x + 1 / 2 < of_int n + 1"
    unfolding n_def Math_round_def by linarith+
  have c: "x - H < 1 / (2 * of_int k)" "H - x < 1 / (2 * of_int k)" using close by linarith+
  have zr: "(of_int z :: rat) = 2 * of_int k * (of_int n - H)"
    using int by (simp add: z_def algebra_simps)
  have "of_int n - H < 1 / 2 + 1 / (2 * of_int k)" using n(1) c(1) by linarith
  hence "2 * of_int k * (of_int n - H) < 2 * of_int k * (1 / 2 + 1 / (2 * of_int k))"
    using kk by (intro mult_strict_left_mono) simp_all
  also have "\<dots> = of_int k + 1" using kk by (simp add: field_simps)
  finally have "(of_int z :: rat) < of_int (k + 1)" by (simp add: zr)
  hence up: "z \<le> k" by simp
  have "- (1 / 2 + 1 / (2 * of_int k)) < of_int n - H" using n(2) c(2) by linarith
  hence "2 * of_int k * (- (1 / 2 + 1 / (2 * of_int k))) < 2 * of_int k * (of_int n - H)"
    using kk by (intro mult_strict_left_mono) simp_all
  moreover have "2 * of_int k * (- (1 / 2 + 1 / (2 * of_int k))) = - (of_int k + 1 :: rat)"
    using kk by (simp add: field_simps)
  ultimately have "(of_int (- (k + 1)) :: rat) < of_int z" by (simp add: zr)
  hence lo: "- k \<le> z" by simp
  have "\<bar>of_int z :: rat\<bar> \<le> of_int k" using up lo by (simp add: abs_le_iff)
  hence "2 * of_int k * \<bar>of_int n - H\<bar> \<le> of_int k"
    using kk by (simp add: zr abs_mult)
  hence "\<bar>of_int n - H\<bar> \<le> 1 / 2" using kk by (simp add: field_simps)
  thus ?thesis by (simp add: n_def)
qed

lemma roundoff_pos: "0 < roundoff"
  by (simp add: roundoff_def)

lemma roundoff_small: "1000000 * roundoff < 1 / 1020"
  by (simp add: roundoff_def)

lemma fl_roundoff: "\<bar>x\<bar> \<le> B \<Longrightarrow> \<bar>fl x - x\<bar> \<le> B * roundoff"
  using fl_abs_error[of x B] by (simp add: roundoff_def)

lemma fl_near:
  assumes "\<bar>x - X\<bar> \<le> a" "\<bar>x\<bar> \<le> B"
  shows "\<bar>fl x - X\<bar> \<le> a + B * roundoff"
  using fl_roundoff[OF assms(2)] assms(1) by linarith

lemma channel_close:
  assumes "0 \<le> c" "c \<le> 255"
  shows "\<bar>fdiv (of_int c) 255 - of_int c / 255\<bar> \<le> roundoff"
proof -
  have "(of_int c :: rat) \<le> 255" using assms(2) by (metis of_int_le_iff of_int_numeral)
  hence "\<bar>(of_int c :: rat) / 255\<bar> \<le> 1" using assms(1) by simp
  from fl_roundoff[OF this] show ?thesis by (simp add: fdiv_def)
qed

lemma channel_mono: "a \<le> b \<Longrightarrow> fdiv (of_int a) 255 \<le> fdiv (of_int b) 255"
  unfolding fdiv_def by (intro fl_mono divide_right_mono) simp_all

lemma channel_strict:
  assumes "0 \<le> a" "a < b" "b \<le> 255"
  shows "fdiv (of_int a) 255 < fdiv (of_int b) 255"
proof -
  have 1: "\<bar>fdiv (of_int a) 255 - of_int a / 255\<bar> \<le> roundoff"
    by (rule channel_close) (use assms in simp_all)
  have 2: "\<bar>fdiv (of_int b) 255 - of_int b / 255\<bar> \<le> roundoff"
    by (rule channel_close) (use assms in simp_all)
  have "a + 1 \<le> b" using assms(2) by simp
  hence "(of_int (a + 1) :: rat) \<le> of_int b" by (simp only: of_int_le_iff)
  hence "(of_int a :: rat) / 255 + 1 / 255 \<le> of_int b / 255" by simp
  thus ?thesis using 1 2 roundoff_small roundoff_pos by linarith
qed

lemma channel_less_iff:
  assumes "0 \<le> a" "a \<le> 255" "0 \<le> b" "b \<le> 255"
  shows "fdiv (of_int a) 255 < fdiv (of_int b) 255 \<longleftrightarrow> a < b"
proof
  assume "a < b"
  thus "fdiv (of_int a) 255 < fdiv (of_int b) 255" using assms by (intro channel_strict)
next
  assume lt: "fdiv (of_int a) 255 < fdiv (of_int b) 255"
  show "a < b"
  proof (rule ccontr)
    assume "\<not> a < b"
    hence "b \<le> a" by simp
    from channel_mono[OF this] lt show False by simp
  qed
qed

lemma channel_eq_iff:
  assumes "0 \<le> a" "a \<le> 255" "0 \<le> b" "b \<le> 255"
  shows "fdiv (of_int a) 255 = fdiv (of_int b) 255 \<longleftrightarrow> a = b"
proof
  assume eq: "fdiv (of_int a) 255 = fdiv (of_int b) 255"
  show "a = b"
  proof (rule ccontr)
    assume "a \<noteq> b"
    then consider "a < b" | "b < a" by linarith
    thus False
    proof cases
      case 1
      from channel_strict[OF assms(1) this assms(4)] eq show False by simp
    next
      case 2
      from channel_strict[OF assms(3) this assms(2)] eq show False by simp
    qed
  qed
qed simp

lemma channel_max: "max (fdiv (of_int a) 255) (fdiv (of_int b) 255) = fdiv (of_int (max a b)) 255"
proof (cases "a \<le> b")
  case True
  from channel_mono[OF this] True show ?thesis by (simp only: max_absorb2)
next
  case False
  hence le: "b \<le> a" by simp
  from channel_mono[OF this] le show ?thesis by (simp only: max_absorb1)
qed

lemma channel_min: "min (fdiv (of_int a) 255) (fdiv (of_int b) 255) = fdiv (of_int (min a b)) 255"
proof (cases "a \<le> b")
  case True
  from channel_mono[OF this] True show ?thesis by (simp only: min_absorb1)
next
  case False
  hence le: "b \<le> a" by simp
  from channel_mono[OF this] le show ?thesis by (simp only: min_absorb2)
qed

lemma lightness_close:
  assumes "\<bar>mx - MX\<bar> \<le> roundoff" "\<bar>mn - MN\<bar> \<le> roundoff" "0 \<le> mn" "mn \<le> mx" "mx \<le> 1"
  shows "\<bar>fadd mx mn - (MX + MN)\<bar> \<le> 4 * roundoff"
    and "\<bar>fdiv (fadd mx mn) 2 - (MX + MN) / 2\<bar> \<le> 3 * roundoff"
    and "\<bar>fmul (fdiv (fadd mx mn) 2) 100 - 100 * ((MX + MN) / 2)\<bar> \<le> 400 * roundoff"
proof -
  define S where "S = MX + MN"
  have a: "\<bar>fl (mx + mn) - S\<bar> \<le> 2 * roundoff + 2 * roundoff"
    by (rule fl_near) (use assms S_def in linarith)+
  have "of_int 0 \<le> mx + mn" "mx + mn \<le> of_int 2" using assms by simp_all
  hence "of_int 0 \<le> fl (mx + mn) \<and> fl (mx + mn) \<le> of_int 2" by (intro fl_between) simp_all
  hence t1: "0 \<le> fl (mx + mn)" "fl (mx + mn) \<le> 2" by simp_all
  have b: "\<bar>fl (fl (mx + mn) / 2) - S / 2\<bar> \<le> 2 * roundoff + 1 * roundoff"
    by (rule fl_near) (use a t1 in linarith)+
  have t2: "0 \<le> fl (fl (mx + mn) / 2) \<and> fl (fl (mx + mn) / 2) \<le> 1"
    using lightness_unit[OF assms(3,4,5)] by (simp only: fdiv_def fadd_def)
  have c: "\<bar>fl (fl (fl (mx + mn) / 2) * 100) - 100 * (S / 2)\<bar> \<le> 300 * roundoff + 100 * roundoff"
    by (rule fl_near) (use b t2 in linarith)+
  show "\<bar>fadd mx mn - (MX + MN)\<bar> \<le> 4 * roundoff" using a by (simp add: fadd_def S_def)
  show "\<bar>fdiv (fadd mx mn) 2 - (MX + MN) / 2\<bar> \<le> 3 * roundoff"
    using b by (simp add: fdiv_def fadd_def S_def)
  show "\<bar>fmul (fdiv (fadd mx mn) 2) 100 - 100 * ((MX + MN) / 2)\<bar> \<le> 400 * roundoff"
    using c by (simp add: fdiv_def fadd_def fmul_def S_def)
qed

lemma diff_close:
  assumes "\<bar>x - X\<bar> \<le> roundoff" "\<bar>y - Y\<bar> \<le> roundoff" "0 \<le> x" "x \<le> 1" "0 \<le> y" "y \<le> 1"
  shows "\<bar>fsub x y - (X - Y)\<bar> \<le> 3 * roundoff"
proof -
  have "\<bar>fl (x - y) - (X - Y)\<bar> \<le> 2 * roundoff + 1 * roundoff"
    by (rule fl_near) (use assms in linarith)+
  thus ?thesis by (simp add: fsub_def)
qed

lemma complement_close:
  assumes "\<bar>mx - MX\<bar> \<le> roundoff" "\<bar>mn - MN\<bar> \<le> roundoff" "0 \<le> mn" "mn \<le> mx" "mx \<le> 1"
  shows "\<bar>fsub (fsub 2 mx) mn - (2 - MX - MN)\<bar> \<le> 6 * roundoff"
proof -
  have a: "\<bar>fl (2 - mx) - (2 - MX)\<bar> \<le> roundoff + 2 * roundoff"
    by (rule fl_near) (use assms in linarith)+
  have "of_int 1 \<le> 2 - mx" "2 - mx \<le> of_int 2" using assms by simp_all
  hence "of_int 1 \<le> fl (2 - mx) \<and> fl (2 - mx) \<le> of_int 2" by (intro fl_between) simp_all
  hence t: "1 \<le> fl (2 - mx)" "fl (2 - mx) \<le> 2" by simp_all
  have "\<bar>fl (fl (2 - mx) - mn) - (2 - MX - MN)\<bar> \<le> 4 * roundoff + 2 * roundoff"
    by (rule fl_near) (use a t assms in linarith)+
  thus ?thesis by (simp add: fsub_def)
qed

lemma quotient_close:
  assumes n: "\<bar>n - N\<bar> \<le> 6 * roundoff" and a: "\<bar>a - A\<bar> \<le> 6 * roundoff"
    and N: "\<bar>N\<bar> \<le> A" and A: "1 / 255 \<le> A"
  shows "\<bar>fdiv n a - N / A\<bar> \<le> 6122 * roundoff" and "\<bar>N / A\<bar> \<le> 1"
proof -
  have "\<bar>n / a - N / A\<bar> \<le> 4 * (6 * roundoff) / (1 / 255)"
    by (rule div_close[OF n a N A]) (use roundoff_small roundoff_pos in linarith)+
  hence q: "\<bar>n / a - N / A\<bar> \<le> 6120 * roundoff" by simp
  have Apos: "0 < A" using A by linarith
  show u: "\<bar>N / A\<bar> \<le> 1" using N Apos by (simp add: abs_divide divide_le_eq_1)
  have "\<bar>fl (n / a) - N / A\<bar> \<le> 6120 * roundoff + 2 * roundoff"
    by (rule fl_near) (use q u roundoff_small roundoff_pos in linarith)+
  thus "\<bar>fdiv n a - N / A\<bar> \<le> 6122 * roundoff" by (simp add: fdiv_def)
qed

lemma percent_close:
  assumes "\<bar>s - S\<bar> \<le> 6122 * roundoff" "\<bar>S\<bar> \<le> 1"
  shows "\<bar>fmul s 100 - 100 * S\<bar> \<le> 1000000 * roundoff"
proof -
  have "\<bar>fl (s * 100) - 100 * S\<bar> \<le> 612200 * roundoff + 200 * roundoff"
    by (rule fl_near) (use assms roundoff_small roundoff_pos in linarith)+
  thus ?thesis using roundoff_pos by (simp add: fmul_def)
qed

lemma hue_close:
  assumes "\<bar>q - Q\<bar> \<le> 6122 * roundoff" "\<bar>Q\<bar> \<le> 1" "0 \<le> c" "c \<le> 6"
  shows "\<bar>fmul (fdiv (fadd q c) 6) 360 - 60 * (Q + c)\<bar> \<le> 1000000 * roundoff"
proof -
  define W where "W = Q + c"
  have a: "\<bar>fl (q + c) - W\<bar> \<le> 6122 * roundoff + 8 * roundoff"
    by (rule fl_near) (use assms W_def roundoff_small roundoff_pos in linarith)+
  have b: "\<bar>fl (fl (q + c) / 6) - W / 6\<bar> \<le> 1022 * roundoff + 2 * roundoff"
    by (rule fl_near) (use a assms W_def roundoff_small roundoff_pos in linarith)+
  have "\<bar>fl (fl (fl (q + c) / 6) * 360) - 60 * W\<bar> \<le> 368640 * roundoff + 720 * roundoff"
    by (rule fl_near) (use b assms W_def roundoff_small roundoff_pos in linarith)+
  thus ?thesis using roundoff_pos by (simp add: fmul_def fdiv_def fadd_def W_def)
qed

lemma nearest_scaled:
  fixes c n k c2 :: int and x :: rat
  assumes close: "\<bar>x - (of_int c * (of_int n / of_int k) + of_int c2)\<bar> \<le> 1000000 * roundoff"
    and k: "0 < k" "k \<le> 255"
  shows "\<bar>of_int (Math_round x) - (of_int c * (of_int n / of_int k) + of_int c2 :: rat)\<bar> \<le> 1 / 2"
proof (rule round_nearest[where k = k and m = "c * n + c2 * k"])
  have kr: "(0::rat) < of_int k" "(of_int k :: rat) \<le> 255"
    using k by (simp, metis of_int_le_iff of_int_numeral)
  hence "2 * (of_int k :: rat) \<le> 510" by simp
  hence "1 / 510 \<le> 1 / (2 * of_int k :: rat)" using kr(1) by (intro divide_left_mono) simp_all
  thus "\<bar>x - (of_int c * (of_int n / of_int k) + of_int c2)\<bar> < 1 / (2 * of_int k)"
    using close roundoff_small by linarith
  show "0 < k" by fact
  show "of_int k * (of_int c * (of_int n / of_int k) + of_int c2) = (of_int (c * n + c2 * k) :: rat)"
    using k(1) by (simp add: field_simps)
qed

lemma lightness_nearest:
  assumes "0 \<le> m0" "m0 \<le> M0" "M0 \<le> 255"
  shows "\<bar>of_int (Math_round (fmul (fdiv (fadd (fdiv (of_int M0) 255) (fdiv (of_int m0) 255)) 2) 100))
          - 100 * ((of_int M0 / 255 + of_int m0 / 255) / 2 :: rat)\<bar> \<le> 1 / 2"
proof -
  define mx where "mx = fdiv (of_int M0) 255"
  define mn where "mn = fdiv (of_int m0) 255"
  define MX :: rat where "MX = of_int M0 / 255"
  define MN :: rat where "MN = of_int m0 / 255"
  have cl: "\<bar>mx - MX\<bar> \<le> roundoff" "\<bar>mn - MN\<bar> \<le> roundoff"
    unfolding mx_def mn_def MX_def MN_def using assms by (auto intro!: channel_close)
  have u: "0 \<le> mn" "mn \<le> mx" "mx \<le> 1"
    unfolding mx_def mn_def using assms channel_unit[of m0] channel_unit[of M0] channel_mono[of m0 M0]
    by simp_all
  have "\<bar>fmul (fdiv (fadd mx mn) 2) 100 - 100 * ((MX + MN) / 2)\<bar> \<le> 400 * roundoff"
    by (rule lightness_close(3)[OF cl u])
  moreover have "100 * ((MX + MN) / 2) = of_int 10 * (of_int (M0 + m0) / of_int 51) + of_int 0"
    by (simp add: MX_def MN_def field_simps)
  ultimately have "\<bar>fmul (fdiv (fadd mx mn) 2) 100 - (of_int 10 * (of_int (M0 + m0) / of_int 51) + of_int 0)\<bar>
      \<le> 1000000 * roundoff" using roundoff_pos by linarith
  hence "\<bar>of_int (Math_round (fmul (fdiv (fadd mx mn) 2) 100))
          - (of_int 10 * (of_int (M0 + m0) / of_int 51) + of_int 0 :: rat)\<bar> \<le> 1 / 2"
    by (rule nearest_scaled) simp_all
  moreover have "100 * ((MX + MN) / 2) = of_int 10 * (of_int (M0 + m0) / of_int 51) + of_int 0"
    by (simp add: MX_def MN_def field_simps)
  ultimately show ?thesis unfolding mx_def mn_def MX_def MN_def by (simp only:)
qed


lemma scale_cancel:
  fixes a b c d :: rat
  shows "(a / 255 - b / 255) / (c / 255) = (a - b) / c"
    and "(a / 255 - b / 255) / (c / 255 - d / 255) = (a - b) / (c - d)"
proof -
  have 1: "a / 255 - b / 255 = (a - b) / 255" "c / 255 - d / 255 = (c - d) / 255"
    by (simp_all add: diff_divide_distrib)
  have 2: "(u / 255) / (v / 255) = u / v" for u v :: rat by simp
  show "(a / 255 - b / 255) / (c / 255) = (a - b) / c" by (simp only: 1 2)
  show "(a / 255 - b / 255) / (c / 255 - d / 255) = (a - b) / (c - d)" by (simp only: 1 2)
qed

lemma saturation_nearest:
  assumes "0 \<le> m0" "m0 < M0" "M0 \<le> 255"
  shows "\<bar>of_int (Math_round (fmul
             (if fdiv (fadd (fdiv (of_int M0) 255) (fdiv (of_int m0) 255)) 2 > 1 / 2
              then fdiv (fsub (fdiv (of_int M0) 255) (fdiv (of_int m0) 255))
                        (fsub (fsub 2 (fdiv (of_int M0) 255)) (fdiv (of_int m0) 255))
              else fdiv (fsub (fdiv (of_int M0) 255) (fdiv (of_int m0) 255))
                        (fadd (fdiv (of_int M0) 255) (fdiv (of_int m0) 255))) 100))
          - 100 * ((of_int M0 / 255 - of_int m0 / 255)
                   / (1 - \<bar>2 * ((of_int M0 / 255 + of_int m0 / 255) / 2) - 1\<bar>) :: rat)\<bar> \<le> 1 / 2"
proof -
  define mx where "mx = fdiv (of_int M0) 255"
  define mn where "mn = fdiv (of_int m0) 255"
  define rM :: rat where "rM = of_int M0"
  define rm :: rat where "rm = of_int m0"
  define MX :: rat where "MX = rM / 255"
  define MN :: rat where "MN = rm / 255"
  define D where "D = MX - MN"
  define d where "d = fsub mx mn"
  define l where "l = fdiv (fadd mx mn) 2"
  have le: "m0 + 1 \<le> M0" using assms(2) by simp
  have rr: "0 \<le> rm" "rm + 1 \<le> rM" "rM \<le> 255"
    unfolding rM_def rm_def using assms(1,3) le
    by (simp, metis of_int_1 of_int_add of_int_le_iff, metis of_int_le_iff of_int_numeral)
  have cl: "\<bar>mx - MX\<bar> \<le> roundoff" "\<bar>mn - MN\<bar> \<le> roundoff"
    unfolding mx_def mn_def MX_def MN_def rM_def rm_def using assms by (auto intro!: channel_close)
  have u: "0 \<le> mn" "mn \<le> mx" "mx \<le> 1"
    unfolding mx_def mn_def using assms channel_unit[of m0] channel_unit[of M0] channel_mono[of m0 M0]
    by simp_all
  have dcl: "\<bar>d - D\<bar> \<le> 3 * roundoff"
    unfolding d_def D_def by (rule diff_close[OF cl]) (use u in linarith)+
  have "\<bar>l - (MX + MN) / 2\<bar> \<le> 3 * roundoff"
    unfolding l_def by (rule lightness_close(2)[OF cl u])
  hence lcl: "\<bar>l - (rM / 510 + rm / 510)\<bar> \<le> 3 * roundoff"
    by (simp add: MX_def MN_def add_divide_distrib)
  have D: "D = rM / 255 - rm / 255" by (simp add: D_def MX_def MN_def)
  have goal: "\<bar>of_int (Math_round (fmul (fdiv d a) 100)) - 100 * (D / A)\<bar> \<le> 1 / 2"
    if acl: "\<bar>a - A\<bar> \<le> 6 * roundoff" and A: "A = of_int k / 255" and k: "M0 - m0 \<le> k" "0 < k" "k \<le> 255"
    for a A k
  proof -
    have kr: "rM - rm \<le> of_int k" unfolding rM_def rm_def using k(1) by (metis of_int_diff of_int_le_iff)
    have k1: "(1::rat) \<le> of_int k" using k(2) by (metis of_int_1 of_int_le_iff zless_imp_add1_zle add_0)
    have 1: "\<bar>D\<bar> \<le> A" unfolding D A using rr kr by (simp add: abs_le_iff)
    have 2: "1 / 255 \<le> A" unfolding A using k1 by simp
    have 3: "\<bar>d - D\<bar> \<le> 6 * roundoff" using dcl roundoff_pos by linarith
    have "\<bar>fmul (fdiv d a) 100 - 100 * (D / A)\<bar> \<le> 1000000 * roundoff"
      by (rule percent_close[OF quotient_close[OF 3 acl 1 2]])
    moreover have e: "100 * (D / A) = of_int 100 * (of_int (M0 - m0) / of_int k) + of_int 0"
      unfolding D A scale_cancel by (simp add: rM_def rm_def)
    ultimately have "\<bar>fmul (fdiv d a) 100 - (of_int 100 * (of_int (M0 - m0) / of_int k) + of_int 0)\<bar>
        \<le> 1000000 * roundoff" by (simp only:)
    hence "\<bar>of_int (Math_round (fmul (fdiv d a) 100))
            - (of_int 100 * (of_int (M0 - m0) / of_int k) + of_int 0 :: rat)\<bar> \<le> 1 / 2"
      using k(2,3) by (rule nearest_scaled)
    thus ?thesis by (simp only: e)
  qed
  have res: "\<bar>of_int (Math_round (fmul
             (if l > 1 / 2 then fdiv d (fsub (fsub 2 mx) mn) else fdiv d (fadd mx mn)) 100))
          - 100 * (D / (1 - \<bar>2 * ((MX + MN) / 2) - 1\<bar>))\<bar> \<le> 1 / 2"
  proof (cases "l > 1 / 2")
    case True
    hence "of_int 254 < rM + rm" using lcl roundoff_small roundoff_pos by simp
    hence "254 < M0 + m0" unfolding rM_def rm_def by (metis of_int_add of_int_less_iff)
    hence s: "255 \<le> M0 + m0" by simp
    hence sr: "255 \<le> rM + rm" unfolding rM_def rm_def by (metis of_int_add of_int_le_iff of_int_numeral)
    have A: "2 - MX - MN = of_int (510 - (M0 + m0)) / 255"
      by (simp add: MX_def MN_def rM_def rm_def field_simps)
    have g: "\<bar>of_int (Math_round (fmul (fdiv d (fsub (fsub 2 mx) mn)) 100)) - 100 * (D / (2 - MX - MN))\<bar> \<le> 1 / 2"
      by (rule goal[OF complement_close[OF cl u] A]) (use s assms in simp_all)
    have eq: "1 - \<bar>2 * ((MX + MN) / 2) - 1\<bar> = 2 - MX - MN"
    proof -
      have "2 * ((MX + MN) / 2) = MX + MN" by simp
      moreover have "1 \<le> MX + MN" unfolding MX_def MN_def using sr by linarith
      ultimately show ?thesis by (simp only:)
    qed
    show ?thesis using g by (simp only: True if_True eq)
  next
    case False
    hence "rM + rm < of_int 256" using lcl roundoff_small roundoff_pos by simp
    hence "M0 + m0 < 256" unfolding rM_def rm_def by (metis of_int_add of_int_less_iff)
    hence s: "M0 + m0 \<le> 255" by simp
    hence sr: "rM + rm \<le> 255" unfolding rM_def rm_def by (metis of_int_add of_int_le_iff of_int_numeral)
    have A: "MX + MN = of_int (M0 + m0) / 255"
      by (simp add: MX_def MN_def rM_def rm_def field_simps)
    have "\<bar>fadd mx mn - (MX + MN)\<bar> \<le> 4 * roundoff" by (rule lightness_close(1)[OF cl u])
    hence acl: "\<bar>fadd mx mn - (MX + MN)\<bar> \<le> 6 * roundoff" using roundoff_pos by linarith
    have g: "\<bar>of_int (Math_round (fmul (fdiv d (fadd mx mn)) 100)) - 100 * (D / (MX + MN))\<bar> \<le> 1 / 2"
      by (rule goal[OF acl A]) (use s assms in simp_all)
    have eq: "1 - \<bar>2 * ((MX + MN) / 2) - 1\<bar> = MX + MN"
    proof -
      have "2 * ((MX + MN) / 2) = MX + MN" by simp
      moreover have "MX + MN \<le> 1" unfolding MX_def MN_def using sr by linarith
      ultimately show ?thesis by (simp only:)
    qed
    show ?thesis using g by (simp only: False if_False eq)
  qed
  show ?thesis
    using res unfolding l_def d_def D_def MX_def MN_def rM_def rm_def mx_def mn_def by (simp only:)
qed

lemma hue_nearest:
  assumes "0 \<le> m0" "m0 < M0" "M0 \<le> 255" "m0 \<le> x0" "x0 \<le> M0" "m0 \<le> y0" "y0 \<le> M0"
    and "0 \<le> c0" "c0 \<le> 6"
  shows "\<bar>of_int (Math_round (fmul (fdiv (fadd
             (fdiv (fsub (fdiv (of_int x0) 255) (fdiv (of_int y0) 255))
                   (fsub (fdiv (of_int M0) 255) (fdiv (of_int m0) 255))) (of_int c0)) 6) 360))
          - 60 * ((of_int x0 / 255 - of_int y0 / 255) / (of_int M0 / 255 - of_int m0 / 255)
                  + of_int c0 :: rat)\<bar> \<le> 1 / 2"
proof -
  define mx where "mx = fdiv (of_int M0) 255"
  define mn where "mn = fdiv (of_int m0) 255"
  define x where "x = fdiv (of_int x0) 255"
  define y where "y = fdiv (of_int y0) 255"
  define rM :: rat where "rM = of_int M0"
  define rm :: rat where "rm = of_int m0"
  define rx :: rat where "rx = of_int x0"
  define ry :: rat where "ry = of_int y0"
  define D where "D = rM / 255 - rm / 255"
  define N where "N = rx / 255 - ry / 255"
  have le: "m0 + 1 \<le> M0" using assms(2) by simp
  have rr: "0 \<le> rm" "rm + 1 \<le> rM" "rM \<le> 255" "rm \<le> rx" "rx \<le> rM" "rm \<le> ry" "ry \<le> rM"
    unfolding rM_def rm_def rx_def ry_def using assms le
    by (simp, metis of_int_1 of_int_add of_int_le_iff, metis of_int_le_iff of_int_numeral, simp_all)
  have r: "0 \<le> x0" "x0 \<le> 255" "0 \<le> y0" "y0 \<le> 255" "0 \<le> M0" "m0 \<le> 255" using assms by simp_all
  have cl: "\<bar>mx - rM / 255\<bar> \<le> roundoff" "\<bar>mn - rm / 255\<bar> \<le> roundoff"
    "\<bar>x - rx / 255\<bar> \<le> roundoff" "\<bar>y - ry / 255\<bar> \<le> roundoff"
    unfolding mx_def mn_def x_def y_def rM_def rm_def rx_def ry_def
    using assms r by (auto intro!: channel_close)
  have u: "0 \<le> mn \<and> mn \<le> 1" "0 \<le> mx \<and> mx \<le> 1" "0 \<le> x \<and> x \<le> 1" "0 \<le> y \<and> y \<le> 1"
    unfolding mx_def mn_def x_def y_def using assms r by (auto intro!: channel_unit)
  have "\<bar>fsub mx mn - D\<bar> \<le> 3 * roundoff"
    unfolding D_def by (rule diff_close[OF cl(1,2)]) (use u in simp_all)
  hence dcl: "\<bar>fsub mx mn - D\<bar> \<le> 6 * roundoff" using roundoff_pos by linarith
  have "\<bar>fsub x y - N\<bar> \<le> 3 * roundoff"
    unfolding N_def by (rule diff_close[OF cl(3,4)]) (use u in simp_all)
  hence ncl: "\<bar>fsub x y - N\<bar> \<le> 6 * roundoff" using roundoff_pos by linarith
  have 1: "\<bar>N\<bar> \<le> D" unfolding N_def D_def using rr by (simp add: abs_le_iff)
  have 2: "1 / 255 \<le> D" unfolding D_def using rr by linarith
  have c: "(0::rat) \<le> of_int c0" "(of_int c0 :: rat) \<le> 6"
    using assms(8,9) by (simp, metis of_int_le_iff of_int_numeral)
  have "\<bar>fmul (fdiv (fadd (fdiv (fsub x y) (fsub mx mn)) (of_int c0)) 6) 360 - 60 * (N / D + of_int c0)\<bar>
      \<le> 1000000 * roundoff"
    by (rule hue_close[OF quotient_close[OF ncl dcl 1 2] c])
  moreover have e: "60 * (N / D + of_int c0) = of_int 60 * (of_int (x0 - y0) / of_int (M0 - m0)) + of_int (60 * c0)"
    unfolding N_def D_def scale_cancel by (simp add: rM_def rm_def rx_def ry_def)
  ultimately have "\<bar>fmul (fdiv (fadd (fdiv (fsub x y) (fsub mx mn)) (of_int c0)) 6) 360
        - (of_int 60 * (of_int (x0 - y0) / of_int (M0 - m0)) + of_int (60 * c0))\<bar> \<le> 1000000 * roundoff"
    by (simp only:)
  hence "\<bar>of_int (Math_round (fmul (fdiv (fadd (fdiv (fsub x y) (fsub mx mn)) (of_int c0)) 6) 360))
        - (of_int 60 * (of_int (x0 - y0) / of_int (M0 - m0)) + of_int (60 * c0) :: rat)\<bar> \<le> 1 / 2"
    by (rule nearest_scaled) (use assms in simp_all)
  hence "\<bar>of_int (Math_round (fmul (fdiv (fadd (fdiv (fsub x y) (fsub mx mn)) (of_int c0)) 6) 360))
        - 60 * (N / D + of_int c0)\<bar> \<le> 1 / 2" by (simp only: e)
  thus ?thesis unfolding N_def D_def rM_def rm_def rx_def ry_def mx_def mn_def x_def y_def by (simp only:)
qed

lemma exact_channel_max: "max (of_int a / 255) (of_int b / 255 :: rat) = of_int (max a b) / 255"
  by (cases "a \<le> b") (simp_all add: max_def)

lemma exact_channel_min: "min (of_int a / 255) (of_int b / 255 :: rat) = of_int (min a b) / 255"
  by (cases "a \<le> b") (simp_all add: min_def)

lemma exact_hue_quotient:
  fixes x0 y0 M0 m0 :: int
  defines "Q \<equiv> (of_int x0 / 255 - of_int y0 / 255) / (of_int M0 / 255 - of_int m0 / 255 :: rat)"
  assumes "m0 < M0" "m0 \<le> x0" "x0 \<le> M0" "m0 \<le> y0" "y0 \<le> M0"
  shows "- 1 \<le> Q \<and> Q \<le> 1" and "x0 < y0 \<Longrightarrow> Q < 0" and "y0 \<le> x0 \<Longrightarrow> 0 \<le> Q"
proof -
  define D :: rat where "D = of_int M0 - of_int m0"
  define N :: rat where "N = of_int x0 - of_int y0"
  have Q: "Q = N / D" unfolding Q_def N_def D_def by (rule scale_cancel(2))
  have D: "0 < D" unfolding D_def using assms(2) by simp
  have "x0 - y0 \<le> M0 - m0" "- (M0 - m0) \<le> x0 - y0" using assms by simp_all
  hence "(of_int (x0 - y0) :: rat) \<le> of_int (M0 - m0)" "(of_int (- (M0 - m0)) :: rat) \<le> of_int (x0 - y0)"
    by (simp_all only: of_int_le_iff)
  hence N: "N \<le> D" "- D \<le> N" unfolding N_def D_def by simp_all
  show "- 1 \<le> Q \<and> Q \<le> 1" unfolding Q using D N by (simp add: pos_le_divide_eq pos_divide_le_eq)
  show "Q < 0" if "x0 < y0"
  proof -
    have "N < 0" unfolding N_def using that by simp
    thus ?thesis unfolding Q using D by (simp add: divide_less_0_iff)
  qed
  show "0 \<le> Q" if "y0 \<le> x0"
  proof -
    have "0 \<le> N" unfolding N_def using that by simp
    thus ?thesis unfolding Q using D by simp
  qed
qed

lemma rgbToHsl_nearest:
  assumes "0 \<le> r0 \<and> r0 \<le> 255" and "0 \<le> g0 \<and> g0 \<le> 255" and "0 \<le> b0 \<and> b0 \<le> 255"
  shows "\<bar>of_int (hsl_h (rgbToHsl r0 g0 b0)) - standard_hue r0 g0 b0\<bar> \<le> 1 / 2"
    and "\<bar>of_int (hsl_s (rgbToHsl r0 g0 b0)) - 100 * standard_saturation r0 g0 b0\<bar> \<le> 1 / 2"
    and "\<bar>of_int (hsl_l (rgbToHsl r0 g0 b0)) - 100 * standard_lightness r0 g0 b0\<bar> \<le> 1 / 2"
    and "0 \<le> standard_hue r0 g0 b0 \<and> standard_hue r0 g0 b0 < 360"
proof -
  define M0 where "M0 = max r0 (max g0 b0)"
  define m0 where "m0 = min r0 (min g0 b0)"
  have mM: "0 \<le> m0" "m0 \<le> M0" "M0 \<le> 255" "0 \<le> M0" "m0 \<le> 255"
    and ch: "m0 \<le> r0" "r0 \<le> M0" "m0 \<le> g0" "g0 \<le> M0" "m0 \<le> b0" "b0 \<le> M0"
    and last: "M0 \<noteq> r0 \<Longrightarrow> M0 \<noteq> g0 \<Longrightarrow> M0 = b0"
    unfolding M0_def m0_def using assms by auto
  define r where "r = fdiv (of_int r0) 255"
  define g where "g = fdiv (of_int g0) 255"
  define b where "b = fdiv (of_int b0) 255"
  define mx where "mx = max r (max g b)"
  define mn where "mn = min r (min g b)"
  define l where "l = fdiv (fadd mx mn) 2"
  define d where "d = fsub mx mn"
  define s where "s = (if mx = mn then 0
               else if l > 1 / 2 then fdiv d (fsub (fsub 2 mx) mn) else fdiv d (fadd mx mn))"
  define h where "h = (if mx = mn then 0
               else if mx = r then fdiv (fadd (fdiv (fsub g b) d) (if g < b then 6 else 0)) 6
               else if mx = g then fdiv (fadd (fdiv (fsub b r) d) 2) 6
               else fdiv (fadd (fdiv (fsub r g) d) 4) 6)"
  have res: "rgbToHsl r0 g0 b0 = \<lparr>hsl_h = Math_round (fmul h 360), hsl_s = Math_round (fmul s 100),
          hsl_l = Math_round (fmul l 100)\<rparr>"
    unfolding rgbToHsl_unfold Let_def h_def s_def d_def l_def mn_def mx_def b_def g_def r_def ..
  have mxE: "mx = fdiv (of_int M0) 255" and mnE: "mn = fdiv (of_int m0) 255"
    unfolding mx_def mn_def r_def g_def b_def M0_def m0_def by (simp_all only: channel_max channel_min)
  have c1: "mx = mn \<longleftrightarrow> M0 = m0" unfolding mxE mnE by (rule channel_eq_iff) (use mM in simp_all)
  have c2: "mx = r \<longleftrightarrow> M0 = r0" unfolding mxE r_def by (rule channel_eq_iff) (use mM assms in simp_all)
  have c3: "mx = g \<longleftrightarrow> M0 = g0" unfolding mxE g_def by (rule channel_eq_iff) (use mM assms in simp_all)
  have c4: "g < b \<longleftrightarrow> g0 < b0" unfolding g_def b_def by (rule channel_less_iff) (use assms in simp_all)
  define R :: rat where "R = of_int r0 / 255"
  define G :: rat where "G = of_int g0 / 255"
  define B :: rat where "B = of_int b0 / 255"
  define MX where "MX = max R (max G B)"
  define MN where "MN = min R (min G B)"
  have MXE: "MX = of_int M0 / 255" and MNE: "MN = of_int m0 / 255"
    unfolding MX_def MN_def R_def G_def B_def M0_def m0_def
    by (simp_all only: exact_channel_max exact_channel_min)
  have e1: "MX = MN \<longleftrightarrow> M0 = m0" unfolding MXE MNE by simp
  have e2: "MX = R \<longleftrightarrow> M0 = r0" unfolding MXE R_def by simp
  have e3: "MX = G \<longleftrightarrow> M0 = g0" unfolding MXE G_def by simp
  have e4: "G < B \<longleftrightarrow> g0 < b0" unfolding G_def B_def by simp
  have sl: "standard_lightness r0 g0 b0 = (MX + MN) / 2"
    unfolding standard_lightness_def Let_def MX_def MN_def R_def G_def B_def ..
  have ss: "standard_saturation r0 g0 b0 =
      (if M0 = m0 then 0 else (MX - MN) / (1 - \<bar>2 * ((MX + MN) / 2) - 1\<bar>))"
    unfolding e1[symmetric] standard_saturation_def Let_def MX_def MN_def R_def G_def B_def ..
  have sh: "standard_hue r0 g0 b0 =
      (if M0 = m0 then 0
       else if M0 = r0 then 60 * ((G - B) / (MX - MN) + (if g0 < b0 then 6 else 0))
       else if M0 = g0 then 60 * ((B - R) / (MX - MN) + 2)
       else 60 * ((R - G) / (MX - MN) + 4))"
    unfolding e1[symmetric] e2[symmetric] e3[symmetric] e4[symmetric]
      standard_hue_def Let_def MX_def MN_def R_def G_def B_def ..
  have zero: "Math_round (fmul 0 k) = 0" for k using Math_round_of_int[of 0] by (simp add: fmul_def)
  have light: "\<bar>of_int (Math_round (fmul l 100)) - 100 * ((MX + MN) / 2)\<bar> \<le> 1 / 2"
    unfolding l_def mxE mnE MXE MNE by (rule lightness_nearest[OF mM(1,2,3)])
  have sat: "\<bar>of_int (Math_round (fmul s 100)) - 100 * standard_saturation r0 g0 b0\<bar> \<le> 1 / 2"
  proof (cases "M0 = m0")
    case True
    thus ?thesis unfolding ss s_def c1 by (simp add: zero)
  next
    case False
    hence lt: "m0 < M0" using mM(2) by simp
    have "\<bar>of_int (Math_round (fmul
             (if l > 1 / 2 then fdiv d (fsub (fsub 2 mx) mn) else fdiv d (fadd mx mn)) 100))
          - 100 * ((MX - MN) / (1 - \<bar>2 * ((MX + MN) / 2) - 1\<bar>))\<bar> \<le> 1 / 2"
      unfolding l_def d_def mxE mnE MXE MNE by (rule saturation_nearest[OF mM(1) lt mM(3)])
    thus ?thesis unfolding ss s_def c1 using False by (simp only: if_False)
  qed
  have branch: "\<bar>of_int (Math_round (fmul (fdiv (fadd (fdiv (fsub (fdiv (of_int x0) 255) (fdiv (of_int y0) 255)) d) c) 6) 360))
          - 60 * ((of_int x0 / 255 - of_int y0 / 255) / (MX - MN) + c)\<bar> \<le> 1 / 2"
    if "m0 < M0" "m0 \<le> x0" "x0 \<le> M0" "m0 \<le> y0" "y0 \<le> M0" "c = 0 \<or> c = 2 \<or> c = 4 \<or> c = 6"
    for x0 y0 c
  proof -
    have "\<exists>c0::int. c = of_int c0 \<and> 0 \<le> c0 \<and> c0 \<le> 6"
      using that(6)
      by (elim disjE) (rule exI[of _ 0], simp, rule exI[of _ 2], simp, rule exI[of _ 4], simp,
          rule exI[of _ 6], simp)
    then obtain c0 :: int where c0: "c = of_int c0" "0 \<le> c0" "c0 \<le> 6" by blast
    show ?thesis unfolding c0(1) d_def mxE mnE MXE MNE
      by (rule hue_nearest[OF mM(1) that(1) mM(3) that(2,3,4,5) c0(2,3)])
  qed
  have hue: "\<bar>of_int (Math_round (fmul h 360)) - standard_hue r0 g0 b0\<bar> \<le> 1 / 2"
  proof (cases "M0 = m0")
    case True
    thus ?thesis unfolding sh h_def c1 by (simp add: zero)
  next
    case False
    hence lt: "m0 < M0" using mM(2) by simp
    show ?thesis
    proof (cases "M0 = r0")
      case r: True
      show ?thesis
      proof (cases "g0 < b0")
        case True
        have "\<bar>of_int (Math_round (fmul (fdiv (fadd (fdiv (fsub g b) d) 6) 6) 360))
                - 60 * ((G - B) / (MX - MN) + 6)\<bar> \<le> 1 / 2"
          unfolding g_def b_def G_def B_def by (rule branch[OF lt ch(3,4,5,6)]) simp
        thus ?thesis unfolding sh h_def c1 c2 c4 using False r True by simp
      next
        case ge: False
        have "\<bar>of_int (Math_round (fmul (fdiv (fadd (fdiv (fsub g b) d) 0) 6) 360))
                - 60 * ((G - B) / (MX - MN) + 0)\<bar> \<le> 1 / 2"
          unfolding g_def b_def G_def B_def by (rule branch[OF lt ch(3,4,5,6)]) simp
        thus ?thesis unfolding sh h_def c1 c2 c4 using False r ge by simp
      qed
    next
      case nr: False
      show ?thesis
      proof (cases "M0 = g0")
        case True
        have "\<bar>of_int (Math_round (fmul (fdiv (fadd (fdiv (fsub b r) d) 2) 6) 360))
                - 60 * ((B - R) / (MX - MN) + 2)\<bar> \<le> 1 / 2"
          unfolding r_def b_def R_def B_def by (rule branch[OF lt ch(5,6,1,2)]) simp
        thus ?thesis unfolding sh h_def c1 c2 c3 using False nr True by simp
      next
        case ng: False
        have "\<bar>of_int (Math_round (fmul (fdiv (fadd (fdiv (fsub r g) d) 4) 6) 360))
                - 60 * ((R - G) / (MX - MN) + 4)\<bar> \<le> 1 / 2"
          unfolding r_def g_def R_def G_def by (rule branch[OF lt ch(1,2,3,4)]) simp
        thus ?thesis unfolding sh h_def c1 c2 c3 using False nr ng by simp
      qed
    qed
  qed
  show "\<bar>of_int (hsl_h (rgbToHsl r0 g0 b0)) - standard_hue r0 g0 b0\<bar> \<le> 1 / 2"
    unfolding res using hue by simp
  show "\<bar>of_int (hsl_s (rgbToHsl r0 g0 b0)) - 100 * standard_saturation r0 g0 b0\<bar> \<le> 1 / 2"
    unfolding res using sat by simp
  show "\<bar>of_int (hsl_l (rgbToHsl r0 g0 b0)) - 100 * standard_lightness r0 g0 b0\<bar> \<le> 1 / 2"
    unfolding res sl using light by simp
  show "0 \<le> standard_hue r0 g0 b0 \<and> standard_hue r0 g0 b0 < 360"
  proof (cases "M0 = m0")
    case True
    thus ?thesis unfolding sh by simp
  next
    case False
    hence lt: "m0 < M0" using mM(2) by simp
    note qr = exact_hue_quotient[OF lt ch(3,4,5,6), folded G_def B_def MXE MNE]
    note qg = exact_hue_quotient[OF lt ch(5,6,1,2), folded R_def B_def MXE MNE]
    note qb = exact_hue_quotient[OF lt ch(1,2,3,4), folded R_def G_def MXE MNE]
    have rng: "0 \<le> 60 * (Q + c) \<and> 60 * (Q + c) < 360" if "0 \<le> Q + c" "Q + c < 6" for Q c :: rat
      using that by auto
    show ?thesis
    proof (cases "M0 = r0")
      case r: True
      show ?thesis
      proof (cases "g0 < b0")
        case True
        have v: "standard_hue r0 g0 b0 = 60 * ((G - B) / (MX - MN) + 6)"
          unfolding sh using False r True by simp
        show ?thesis unfolding v by (rule rng) (use qr(1) qr(2)[OF True] in linarith)+
      next
        case ge: False
        hence le: "b0 \<le> g0" by simp
        have v: "standard_hue r0 g0 b0 = 60 * ((G - B) / (MX - MN) + 0)"
          unfolding sh using False r ge by simp
        show ?thesis unfolding v by (rule rng) (use qr(1) qr(3)[OF le] in linarith)+
      qed
    next
      case nr: False
      show ?thesis
      proof (cases "M0 = g0")
        case True
        have v: "standard_hue r0 g0 b0 = 60 * ((B - R) / (MX - MN) + 2)"
          unfolding sh using False nr True by simp
        show ?thesis unfolding v by (rule rng) (use qg(1) in linarith)+
      next
        case ng: False
        have v: "standard_hue r0 g0 b0 = 60 * ((R - G) / (MX - MN) + 4)"
          unfolding sh using False nr ng by simp
        show ?thesis unfolding v by (rule rng) (use qb(1) in linarith)+
      qed
    qed
  qed
qed

lemma rgbToHsl_example: "rgbToHsl 12 200 77 = \<lparr>hsl_h = 141, hsl_s = 89, hsl_l = 42\<rparr>"
  by code_simp

text \<open>
  Claim C4 says that the hue of \<^verbatim>\<open>rgbToHsl\<close> lies in \<open>[0, 360)\<close>. The hue is rounded after
  the scaling to degrees, and nothing reduces it modulo 360: a red with a trace of blue has a
  hue just under 360 degrees, which rounds to 360.
\<close>

theorem rgbToHsl_hue_counterexample: "hsl_h (rgbToHsl 255 0 1) = 360"
  by code_simp

text \<open>
  Claim C4, amended. For all integers \<open>r\<close>, \<open>g\<close>, \<open>b\<close> from 0 to 255, \<^verbatim>\<open>rgbToHsl\<close> returns
  an integer hue from 0 to 360, both included, that is the hue of the standard transform in
  degrees rounded to nearest: it differs by at most one half from that hue, which itself is at
  least 0 and less than 360. It returns an integer saturation and an integer lightness from 0 to
  100, each the standard transform's value in percent rounded to nearest. When the largest
  channel equals the smallest, the hue and the saturation are 0.
\<close>

theorem rgbToHsl_ranges:
  assumes "0 \<le> r0 \<and> r0 \<le> 255" and "0 \<le> g0 \<and> g0 \<le> 255" and "0 \<le> b0 \<and> b0 \<le> 255"
  shows "0 \<le> hsl_h (rgbToHsl r0 g0 b0) \<and> hsl_h (rgbToHsl r0 g0 b0) \<le> 360 \<and>
         0 \<le> hsl_s (rgbToHsl r0 g0 b0) \<and> hsl_s (rgbToHsl r0 g0 b0) \<le> 100 \<and>
         0 \<le> hsl_l (rgbToHsl r0 g0 b0) \<and> hsl_l (rgbToHsl r0 g0 b0) \<le> 100 \<and>
         (max r0 (max g0 b0) = min r0 (min g0 b0) \<longrightarrow>
            hsl_h (rgbToHsl r0 g0 b0) = 0 \<and> hsl_s (rgbToHsl r0 g0 b0) = 0) \<and>
         0 \<le> standard_hue r0 g0 b0 \<and> standard_hue r0 g0 b0 < 360 \<and>
         \<bar>of_int (hsl_h (rgbToHsl r0 g0 b0)) - standard_hue r0 g0 b0\<bar> \<le> 1 / 2 \<and>
         \<bar>of_int (hsl_s (rgbToHsl r0 g0 b0)) - 100 * standard_saturation r0 g0 b0\<bar> \<le> 1 / 2 \<and>
         \<bar>of_int (hsl_l (rgbToHsl r0 g0 b0)) - 100 * standard_lightness r0 g0 b0\<bar> \<le> 1 / 2"
proof -
  define r where "r = fdiv (of_int r0) 255"
  define g where "g = fdiv (of_int g0) 255"
  define b where "b = fdiv (of_int b0) 255"
  define mx where "mx = max r (max g b)"
  define mn where "mn = min r (min g b)"
  define l where "l = fdiv (fadd mx mn) 2"
  define d where "d = fsub mx mn"
  define s where "s = (if mx = mn then 0
               else if l > 1 / 2 then fdiv d (fsub (fsub 2 mx) mn) else fdiv d (fadd mx mn))"
  define h where "h = (if mx = mn then 0
               else if mx = r then fdiv (fadd (fdiv (fsub g b) d) (if g < b then 6 else 0)) 6
               else if mx = g then fdiv (fadd (fdiv (fsub b r) d) 2) 6
               else fdiv (fadd (fdiv (fsub r g) d) 4) 6)"
  have res: "rgbToHsl r0 g0 b0 = \<lparr>hsl_h = Math_round (fmul h 360), hsl_s = Math_round (fmul s 100),
          hsl_l = Math_round (fmul l 100)\<rparr>"
    unfolding rgbToHsl_unfold Let_def h_def s_def d_def l_def mn_def mx_def b_def g_def r_def ..
  have u: "0 \<le> r \<and> r \<le> 1" "0 \<le> g \<and> g \<le> 1" "0 \<le> b \<and> b \<le> 1"
    unfolding r_def g_def b_def using assms by (simp_all add: channel_unit)
  have m: "0 \<le> mn" "mn \<le> mx" "mx \<le> 1" "mn \<le> r" "r \<le> mx" "mn \<le> g" "g \<le> mx" "mn \<le> b" "b \<le> mx"
    unfolding mx_def mn_def using u by auto
  have lu: "0 \<le> l \<and> l \<le> 1" unfolding l_def by (rule lightness_unit[OF m(1,2,3)])
  have su: "0 \<le> s \<and> s \<le> 1"
  proof (cases "mx = mn")
    case True
    thus ?thesis by (simp add: s_def)
  next
    case False
    hence lt: "mn < mx" using m(2) by simp
    show ?thesis
      using saturation_low_unit[OF m(1) lt] saturation_high_unit[OF m(1) lt m(3)] False
      by (simp add: s_def d_def)
  qed
  have hu: "0 \<le> h \<and> h \<le> 1"
  proof (cases "mx = mn")
    case True
    thus ?thesis by (simp add: h_def)
  next
    case False
    hence lt: "mn < mx" using m(2) by simp
    note qr = hue_quotient[OF m(6,7,8,9) lt, folded d_def]
    note qg = hue_quotient[OF m(8,9,4,5) lt, folded d_def]
    note qb = hue_quotient[OF m(4,5,6,7) lt, folded d_def]
    have r1: "0 \<le> fdiv (fadd (fdiv (fsub g b) d) 6) 6 \<and> fdiv (fadd (fdiv (fsub g b) d) 6) 6 \<le> 1"
      if "g < b"
      using hue_unit[of "- 1" "fdiv (fsub g b) d" 0 6] qr(1) qr(2) that by simp
    have r2: "0 \<le> fdiv (fadd (fdiv (fsub g b) d) 0) 6 \<and> fdiv (fadd (fdiv (fsub g b) d) 0) 6 \<le> 1"
      if "\<not> g < b"
      using hue_unit[of 0 "fdiv (fsub g b) d" 1 0] qr(1) qr(3) that by simp
    have g1: "0 \<le> fdiv (fadd (fdiv (fsub b r) d) 2) 6 \<and> fdiv (fadd (fdiv (fsub b r) d) 2) 6 \<le> 1"
      using hue_unit[of "- 1" "fdiv (fsub b r) d" 1 2] qg(1) by simp
    have b1: "0 \<le> fdiv (fadd (fdiv (fsub r g) d) 4) 6 \<and> fdiv (fadd (fdiv (fsub r g) d) 4) 6 \<le> 1"
      using hue_unit[of "- 1" "fdiv (fsub r g) d" 1 4] qb(1) by simp
    show ?thesis
      unfolding h_def using False r1 r2 g1 b1 by (simp only: if_False split: if_splits) auto
  qed
  have hh: "0 \<le> Math_round (fmul h 360) \<and> Math_round (fmul h 360) \<le> 360"
    using scaled_round_bounds[of h 360] hu by simp
  have ss: "0 \<le> Math_round (fmul s 100) \<and> Math_round (fmul s 100) \<le> 100"
    using scaled_round_bounds[of s 100] su by simp
  have ll: "0 \<le> Math_round (fmul l 100) \<and> Math_round (fmul l 100) \<le> 100"
    using scaled_round_bounds[of l 100] lu by simp
  have grey: "Math_round (fmul h 360) = 0 \<and> Math_round (fmul s 100) = 0"
    if "max r0 (max g0 b0) = min r0 (min g0 b0)"
  proof -
    have "r0 = g0" "g0 = b0" using that by (auto simp: max_def min_def split: if_splits)
    hence "mx = mn" by (simp add: mx_def mn_def r_def g_def b_def)
    hence "h = 0" "s = 0" by (simp_all add: h_def s_def)
    thus ?thesis using Math_round_of_int[of 0] by (simp add: fmul_def)
  qed
  have ranges: "0 \<le> hsl_h (rgbToHsl r0 g0 b0) \<and> hsl_h (rgbToHsl r0 g0 b0) \<le> 360 \<and>
         0 \<le> hsl_s (rgbToHsl r0 g0 b0) \<and> hsl_s (rgbToHsl r0 g0 b0) \<le> 100 \<and>
         0 \<le> hsl_l (rgbToHsl r0 g0 b0) \<and> hsl_l (rgbToHsl r0 g0 b0) \<le> 100 \<and>
         (max r0 (max g0 b0) = min r0 (min g0 b0) \<longrightarrow>
            hsl_h (rgbToHsl r0 g0 b0) = 0 \<and> hsl_s (rgbToHsl r0 g0 b0) = 0)"
    unfolding res using hh ss ll grey by simp
  note nearest = rgbToHsl_nearest[OF assms]
  show ?thesis
    by (intro conjI ranges[THEN conjunct1]
          ranges[THEN conjunct2, THEN conjunct1]
          ranges[THEN conjunct2, THEN conjunct2, THEN conjunct1]
          ranges[THEN conjunct2, THEN conjunct2, THEN conjunct2, THEN conjunct1]
          ranges[THEN conjunct2, THEN conjunct2, THEN conjunct2, THEN conjunct2, THEN conjunct1]
          ranges[THEN conjunct2, THEN conjunct2, THEN conjunct2, THEN conjunct2, THEN conjunct2,
                 THEN conjunct1]
          ranges[THEN conjunct2, THEN conjunct2, THEN conjunct2, THEN conjunct2, THEN conjunct2,
                 THEN conjunct2]
          nearest(4)[THEN conjunct1] nearest(4)[THEN conjunct2] nearest(1) nearest(2) nearest(3))
qed

theorem rgbToHsl_ranges_witness:
  "rgbToHsl 12 200 77 = \<lparr>hsl_h = 141, hsl_s = 89, hsl_l = 42\<rparr> \<and>
   standard_hue 12 200 77 = 6615 / 47 \<and>
   100 * standard_saturation 12 200 77 = 4700 / 53 \<and>
   100 * standard_lightness 12 200 77 = 2120 / 51 \<and>
   \<bar>of_int (hsl_h (rgbToHsl 12 200 77)) - standard_hue 12 200 77\<bar> \<le> 1 / 2 \<and>
   \<bar>of_int (hsl_s (rgbToHsl 12 200 77)) - 100 * standard_saturation 12 200 77\<bar> \<le> 1 / 2 \<and>
   \<bar>of_int (hsl_l (rgbToHsl 12 200 77)) - 100 * standard_lightness 12 200 77\<bar> \<le> 1 / 2 \<and>
   hsl_h (rgbToHsl 12 200 77) \<le> 360 \<and> hsl_s (rgbToHsl 12 200 77) \<le> 100 \<and>
   hsl_h (rgbToHsl 90 90 90) = 0 \<and> hsl_s (rgbToHsl 90 90 90) = 0"
proof -
  have a: "(0::int) \<le> 12 \<and> (12::int) \<le> 255" "(0::int) \<le> 200 \<and> (200::int) \<le> 255"
          "(0::int) \<le> 77 \<and> (77::int) \<le> 255" by simp_all
  have b: "(0::int) \<le> 90 \<and> (90::int) \<le> 255" by simp
  have v: "standard_hue 12 200 77 = 6615 / 47" "100 * standard_saturation 12 200 77 = 4700 / 53"
    "100 * standard_lightness 12 200 77 = 2120 / 51"
    by (simp_all add: standard_hue_def standard_saturation_def standard_lightness_def Let_def)
  from rgbToHsl_ranges[OF a] have 1: "hsl_h (rgbToHsl 12 200 77) \<le> 360" "hsl_s (rgbToHsl 12 200 77) \<le> 100"
    "\<bar>of_int (hsl_h (rgbToHsl 12 200 77)) - standard_hue 12 200 77\<bar> \<le> 1 / 2"
    "\<bar>of_int (hsl_s (rgbToHsl 12 200 77)) - 100 * standard_saturation 12 200 77\<bar> \<le> 1 / 2"
    "\<bar>of_int (hsl_l (rgbToHsl 12 200 77)) - 100 * standard_lightness 12 200 77\<bar> \<le> 1 / 2"
    by blast+
  from rgbToHsl_ranges[OF b b b] have 2: "hsl_h (rgbToHsl 90 90 90) = 0 \<and> hsl_s (rgbToHsl 90 90 90) = 0"
    by simp
  from 1 2 v rgbToHsl_example show ?thesis by blast
qed


section \<open>The contrast colour\<close>

lemma weighted_sum_lower:
  fixes a1 a2 a3 R G B k :: rat
  assumes a: "0 \<le> a1" "0 \<le> a2" "0 \<le> a3" and c: "0 \<le> R" "0 \<le> G" "0 \<le> B" and k: "0 < k"
  shows "(1 - 1 / 2 ^ 53) ^ 5 * ((a1 * R + a2 * G + a3 * B) / k)
           \<le> fl (fl (fl (fl (fl a1 * R) + fl (fl a2 * G)) + fl (fl a3 * B)) / k)"
proof -
  define dl :: rat where "dl = 1 - 1 / 2 ^ 53"
  have dl: "0 \<le> dl" "dl \<le> 1" by (simp_all add: dl_def)
  note lower = fl_lower[folded dl_def]
  have c1: "dl * a1 \<le> fl a1" and c2: "dl * a2 \<le> fl a2" and c3: "dl * a3 \<le> fl a3"
    using a by (auto intro: lower)
  define T1 T2 T3 where "T1 = dl * (dl * a1 * R)" and "T2 = dl * (dl * a2 * G)" and "T3 = dl * (dl * a3 * B)"
  have Tn: "0 \<le> T1" "0 \<le> T2" "0 \<le> T3"
    unfolding T1_def T2_def T3_def using a c dl by simp_all
  have t1: "T1 \<le> fl (fl a1 * R)" unfolding T1_def
    using a c dl by (intro lower mult_right_mono c1 mult_nonneg_nonneg)
  have t2: "T2 \<le> fl (fl a2 * G)" unfolding T2_def
    using a c dl by (intro lower mult_right_mono c2 mult_nonneg_nonneg)
  have t3: "T3 \<le> fl (fl a3 * B)" unfolding T3_def
    using a c dl by (intro lower mult_right_mono c3 mult_nonneg_nonneg)
  have s1: "dl * (T1 + T2) \<le> fl (fl (fl a1 * R) + fl (fl a2 * G))"
    using Tn t1 t2 by (intro lower add_mono add_nonneg_nonneg)
  have s2: "dl * (dl * (T1 + T2) + T3) \<le> fl (fl (fl (fl a1 * R) + fl (fl a2 * G)) + fl (fl a3 * B))"
  proof (rule lower)
    show "0 \<le> dl * (T1 + T2) + T3" using Tn dl by simp
    show "dl * (T1 + T2) + T3 \<le> fl (fl (fl a1 * R) + fl (fl a2 * G)) + fl (fl a3 * B)"
      using s1 t3 by (rule add_mono)
  qed
  have l: "dl * (dl * (dl * (T1 + T2) + T3) / k)
             \<le> fl (fl (fl (fl (fl a1 * R) + fl (fl a2 * G)) + fl (fl a3 * B)) / k)"
  proof (rule lower)
    show "0 \<le> dl * (dl * (T1 + T2) + T3) / k" using Tn dl k by simp
    show "dl * (dl * (T1 + T2) + T3) / k
            \<le> fl (fl (fl (fl a1 * R) + fl (fl a2 * G)) + fl (fl a3 * B)) / k"
      using s2 k by (intro divide_right_mono) simp_all
  qed
  have e4: "dl ^ 4 * (a1 * R + a2 * G + a3 * B) = dl * (dl * (T1 + T2) + dl * T3)"
    by (simp add: T1_def T2_def T3_def power4_eq_xxxx algebra_simps)
  have "dl * T3 \<le> T3" using dl Tn by (intro mult_left_le_one_le) simp_all
  hence "dl * (dl * (T1 + T2) + dl * T3) \<le> dl * (dl * (T1 + T2) + T3)"
    using dl by (intro mult_left_mono add_left_mono)
  hence X: "dl ^ 4 * (a1 * R + a2 * G + a3 * B) \<le> dl * (dl * (T1 + T2) + T3)"
    by (simp only: e4)
  have p5: "dl ^ 5 = dl * dl ^ 4" by (simp add: numeral_eq_Suc)
  have "dl ^ 5 * ((a1 * R + a2 * G + a3 * B) / k) = dl * (dl ^ 4 * (a1 * R + a2 * G + a3 * B) / k)"
    by (simp only: p5 mult.assoc times_divide_eq_right)
  also have "\<dots> \<le> dl * (dl * (dl * (T1 + T2) + T3) / k)"
    using dl k X by (intro mult_left_mono divide_right_mono) simp_all
  also note l
  finally show ?thesis unfolding dl_def .
qed

lemma weighted_sum_upper:
  fixes a1 a2 a3 R G B k :: rat
  assumes a: "0 \<le> a1" "0 \<le> a2" "0 \<le> a3" and c: "0 \<le> R" "0 \<le> G" "0 \<le> B" and k: "0 < k"
  shows "fl (fl (fl (fl (fl a1 * R) + fl (fl a2 * G)) + fl (fl a3 * B)) / k)
           \<le> (1 + 1 / 2 ^ 53) ^ 5 * ((a1 * R + a2 * G + a3 * B) / k)"
proof -
  define et :: rat where "et = 1 + 1 / 2 ^ 53"
  have et: "0 \<le> et" "1 \<le> et" by (simp_all add: et_def)
  note upper = fl_upper[folded et_def]
  have f: "0 \<le> fl a1" "0 \<le> fl a2" "0 \<le> fl a3" using a by (simp_all add: fl_nonneg)
  have c1: "fl a1 \<le> et * a1" and c2: "fl a2 \<le> et * a2" and c3: "fl a3 \<le> et * a3"
    using a by (auto intro: upper)
  define U1 U2 U3 where "U1 = et * (et * a1 * R)" and "U2 = et * (et * a2 * G)" and "U3 = et * (et * a3 * B)"
  have Un: "0 \<le> U1" "0 \<le> U2" "0 \<le> U3"
    unfolding U1_def U2_def U3_def using a c et by simp_all
  have t1: "fl (fl a1 * R) \<le> U1" unfolding U1_def
    using f c by (intro upper mult_right_mono c1 mult_nonneg_nonneg)
  have t2: "fl (fl a2 * G) \<le> U2" unfolding U2_def
    using f c by (intro upper mult_right_mono c2 mult_nonneg_nonneg)
  have t3: "fl (fl a3 * B) \<le> U3" unfolding U3_def
    using f c by (intro upper mult_right_mono c3 mult_nonneg_nonneg)
  have n: "0 \<le> fl (fl a1 * R)" "0 \<le> fl (fl a2 * G)" "0 \<le> fl (fl a3 * B)"
    using f c by (simp_all add: fl_nonneg)
  have s1: "fl (fl (fl a1 * R) + fl (fl a2 * G)) \<le> et * (U1 + U2)"
    using n t1 t2 by (intro upper add_mono add_nonneg_nonneg)
  have n1: "0 \<le> fl (fl (fl a1 * R) + fl (fl a2 * G))" using n by (simp add: fl_nonneg)
  have s2: "fl (fl (fl (fl a1 * R) + fl (fl a2 * G)) + fl (fl a3 * B)) \<le> et * (et * (U1 + U2) + U3)"
  proof (rule upper)
    show "0 \<le> fl (fl (fl a1 * R) + fl (fl a2 * G)) + fl (fl a3 * B)" using n n1 by simp
    show "fl (fl (fl a1 * R) + fl (fl a2 * G)) + fl (fl a3 * B) \<le> et * (U1 + U2) + U3"
      using s1 t3 by (rule add_mono)
  qed
  have n2: "0 \<le> fl (fl (fl (fl a1 * R) + fl (fl a2 * G)) + fl (fl a3 * B))"
    using n n1 by (simp add: fl_nonneg)
  have l: "fl (fl (fl (fl (fl a1 * R) + fl (fl a2 * G)) + fl (fl a3 * B)) / k)
             \<le> et * (et * (et * (U1 + U2) + U3) / k)"
  proof (rule upper)
    show "0 \<le> fl (fl (fl (fl a1 * R) + fl (fl a2 * G)) + fl (fl a3 * B)) / k" using n2 k by simp
    show "fl (fl (fl (fl a1 * R) + fl (fl a2 * G)) + fl (fl a3 * B)) / k
            \<le> et * (et * (U1 + U2) + U3) / k"
      using s2 k by (intro divide_right_mono) simp_all
  qed
  have e4: "et ^ 4 * (a1 * R + a2 * G + a3 * B) = et * (et * (U1 + U2) + et * U3)"
    by (simp add: U1_def U2_def U3_def power4_eq_xxxx algebra_simps)
  have "1 * U3 \<le> et * U3" using et Un by (intro mult_right_mono) simp_all
  hence "U3 \<le> et * U3" by simp
  hence "et * (et * (U1 + U2) + U3) \<le> et * (et * (U1 + U2) + et * U3)"
    using et by (intro mult_left_mono add_left_mono)
  hence X: "et * (et * (U1 + U2) + U3) \<le> et ^ 4 * (a1 * R + a2 * G + a3 * B)"
    by (simp only: e4)
  have p5: "et ^ 5 = et * et ^ 4" by (simp add: numeral_eq_Suc)
  note l
  also have "et * (et * (et * (U1 + U2) + U3) / k) \<le> et * (et ^ 4 * (a1 * R + a2 * G + a3 * B) / k)"
    using et k X by (intro mult_left_mono divide_right_mono) simp_all
  also have "\<dots> = et ^ 5 * ((a1 * R + a2 * G + a3 * B) / k)"
    by (simp only: p5 mult.assoc times_divide_eq_right)
  finally show ?thesis unfolding et_def .
qed

lemma luminance_weighted:
  "luminance r g b =
     fl (fl (fl (fl (fl (299 / 1000) * of_int r) + fl (fl (587 / 1000) * of_int g))
             + fl (fl (114 / 1000) * of_int b)) / 255)"
  unfolding luminance_def fdiv_def fadd_def fmul_def ..

lemma luminance_error:
  assumes "0 \<le> r" "0 \<le> g" "0 \<le> b"
  shows "(1 - 1 / 2 ^ 53) ^ 5 * exact_luminance r g b \<le> luminance r g b"
    and "luminance r g b \<le> (1 + 1 / 2 ^ 53) ^ 5 * exact_luminance r g b"
proof -
  have c: "(0::rat) \<le> of_int r" "(0::rat) \<le> of_int g" "(0::rat) \<le> of_int b" using assms by simp_all
  have a: "(0::rat) \<le> 299 / 1000" "(0::rat) \<le> 587 / 1000" "(0::rat) \<le> 114 / 1000" by simp_all
  have k: "(0::rat) < 255" by simp
  show "(1 - 1 / 2 ^ 53) ^ 5 * exact_luminance r g b \<le> luminance r g b"
    unfolding luminance_weighted exact_luminance_def by (rule weighted_sum_lower[OF a c k])
  show "luminance r g b \<le> (1 + 1 / 2 ^ 53) ^ 5 * exact_luminance r g b"
    unfolding luminance_weighted exact_luminance_def by (rule weighted_sum_upper[OF a c k])
qed


lemma exact_luminance_int:
  "exact_luminance r g b = of_int (299 * r + 587 * g + 114 * b) / 255000"
  by (simp add: exact_luminance_def)

lemma rounding_margin:
  "1 / 2 < (1 - 1 / 2 ^ 53) ^ 5 * (127501 / 255000 :: rat)"
  "(1 + 1 / 2 ^ 53) ^ 5 * (127499 / 255000 :: rat) < 1 / 2"
  by code_simp+

lemma luminance_above:
  assumes "0 \<le> r" "0 \<le> g" "0 \<le> b" "1 / 2 < exact_luminance r g b"
  shows "1 / 2 < luminance r g b"
proof -
  define E where "E = 299 * r + 587 * g + 114 * b"
  have "(127500 :: rat) < of_int E" using assms(4) by (simp add: exact_luminance_int E_def)
  hence "127500 < E" by (metis of_int_less_iff of_int_numeral)
  hence "127501 \<le> E" by simp
  hence "(127501 :: rat) \<le> of_int E" by (metis of_int_le_iff of_int_numeral)
  hence "(127501 / 255000 :: rat) \<le> exact_luminance r g b"
    by (simp add: exact_luminance_int E_def)
  hence "(1 - 1 / 2 ^ 53) ^ 5 * (127501 / 255000 :: rat) \<le> (1 - 1 / 2 ^ 53) ^ 5 * exact_luminance r g b"
    by (intro mult_left_mono) simp_all
  also have "\<dots> \<le> luminance r g b" by (rule luminance_error(1)[OF assms(1,2,3)])
  finally have "(1 - 1 / 2 ^ 53) ^ 5 * (127501 / 255000 :: rat) \<le> luminance r g b" .
  with rounding_margin(1) show ?thesis by (rule less_le_trans)
qed

lemma luminance_below:
  assumes "0 \<le> r" "0 \<le> g" "0 \<le> b" "exact_luminance r g b < 1 / 2"
  shows "luminance r g b < 1 / 2"
proof -
  define E where "E = 299 * r + 587 * g + 114 * b"
  have "of_int E < (127500 :: rat)" using assms(4) by (simp add: exact_luminance_int E_def)
  hence "E < 127500" by (metis of_int_less_iff of_int_numeral)
  hence "E \<le> 127499" by simp
  hence "of_int E \<le> (127499 :: rat)" by (metis of_int_le_iff of_int_numeral)
  hence "exact_luminance r g b \<le> (127499 / 255000 :: rat)"
    by (simp add: exact_luminance_int E_def)
  hence le: "(1 + 1 / 2 ^ 53) ^ 5 * exact_luminance r g b \<le> (1 + 1 / 2 ^ 53) ^ 5 * (127499 / 255000 :: rat)"
    by (intro mult_left_mono) simp_all
  note luminance_error(2)[OF assms(1,2,3)]
  also note le
  also note rounding_margin(2)
  finally show ?thesis .
qed

lemma contrast_tie_rounds_up:
  "exact_luminance 218 58 248 = 1 / 2 \<and> getContrastColor 218 58 248 = ''#000000''"
  by code_simp

lemma contrast_tie_exact:
  "exact_luminance 1 173 225 = 1 / 2 \<and> luminance 1 173 225 = 1 / 2 \<and>
   getContrastColor 1 173 225 = ''#ffffff''"
  by code_simp

text \<open>
  Claim C8 says that the contrast colour is white when the luminance
  \<open>(0.299 r + 0.587 g + 0.114 b) / 255\<close> is exactly 0.5. At \<open>(218, 58, 248)\<close> the luminance is
  exactly 0.5, the double operations of the source round it to the next double above 0.5, and
  the result is black.
\<close>

theorem getContrastColor_tie_counterexample:
  "exact_luminance 218 58 248 = 1 / 2 \<and> getContrastColor 218 58 248 = ''#000000''"
  by (rule contrast_tie_rounds_up)

text \<open>
  Claim C8, amended. For all integers \<open>r\<close>, \<open>g\<close>, \<open>b\<close> from 0 to 255 the contrast colour is
  black when the luminance \<open>(0.299 r + 0.587 g + 0.114 b) / 255\<close> is greater than 0.5 and white
  when it is less than 0.5. When it is exactly 0.5 the double the source computes decides:
  white when that double is at most 0.5, as at \<open>(1, 173, 225)\<close>, black when it is greater, as at
  \<open>(218, 58, 248)\<close>. The result is always one of these two values.
\<close>

theorem getContrastColor_binary:
  assumes "0 \<le> r \<and> r \<le> 255" and "0 \<le> g \<and> g \<le> 255" and "0 \<le> b \<and> b \<le> 255"
  shows "getContrastColor r g b = (if luminance r g b > 1 / 2 then ''#000000'' else ''#ffffff'') \<and>
         (getContrastColor r g b = ''#000000'' \<or> getContrastColor r g b = ''#ffffff'') \<and>
         (exact_luminance r g b > 1 / 2 \<longrightarrow> getContrastColor r g b = ''#000000'') \<and>
         (exact_luminance r g b < 1 / 2 \<longrightarrow> getContrastColor r g b = ''#ffffff'') \<and>
         exact_luminance 1 173 225 = 1 / 2 \<and> getContrastColor 1 173 225 = ''#ffffff'' \<and>
         exact_luminance 218 58 248 = 1 / 2 \<and> getContrastColor 218 58 248 = ''#000000''"
proof -
  have p: "0 \<le> r" "0 \<le> g" "0 \<le> b" using assms by simp_all
  have "exact_luminance r g b > 1 / 2 \<Longrightarrow> luminance r g b > 1 / 2"
    by (rule luminance_above[OF p])
  moreover have "exact_luminance r g b < 1 / 2 \<Longrightarrow> \<not> luminance r g b > 1 / 2"
    using luminance_below[OF p] by simp
  ultimately show ?thesis
    using contrast_tie_exact contrast_tie_rounds_up by (simp add: getContrastColor_def)
qed

theorem getContrastColor_binary_witness:
  "getContrastColor 255 255 255 = ''#000000'' \<and> getContrastColor 10 20 30 = ''#ffffff''"
proof -
  have w: "(0::int) \<le> 255 \<and> (255::int) \<le> 255" by simp
  have d: "(0::int) \<le> 10 \<and> (10::int) \<le> 255" "(0::int) \<le> 20 \<and> (20::int) \<le> 255"
          "(0::int) \<le> 30 \<and> (30::int) \<le> 255" by simp_all
  have "exact_luminance 255 255 255 > 1 / 2" by (simp add: exact_luminance_def)
  hence 1: "getContrastColor 255 255 255 = ''#000000''"
    using getContrastColor_binary[OF w w w] by blast
  have "exact_luminance 10 20 30 < 1 / 2" by (simp add: exact_luminance_def)
  hence 2: "getContrastColor 10 20 30 = ''#ffffff''"
    using getContrastColor_binary[OF d] by blast
  from 1 2 show ?thesis by simp
qed

end
